theory Spec2Isabelle
  imports Main "HOL-Library.Sublist"
begin

section \<open>Reference key classification (types/queryWrappers.ts, \<open>Reference.type\<close>)\<close>

text \<open>Source: \<open>src/unnamed/part_006\<close>.\<close>

datatype ReferenceType = Mail | Media | Record | Web | Unknown

text \<open>JavaScript \<open>s.slice(0, n)\<close> for \<open>0 \<le> n\<close> is \<open>take n s\<close>; \<open>s.includes(' ')\<close> asks
  whether the space character (code 32) occurs in \<open>s\<close>.\<close>

definition includes_space :: "string \<Rightarrow> bool" where
  "includes_space key = (CHR '' '' \<in> set key)"

text \<open>The pattern \<open>/^https?:\/\//\<close>: the text starts with \<open>http\<close>, an optional \<open>s\<close>,
  then \<open>://\<close>.\<close>

definition test_http :: "string \<Rightarrow> bool" where
  "test_http key =
     (take 4 key = ''http'' \<and>
      (let r = drop 4 key in
         (take 1 r = ''s'' \<and> take 3 (drop 1 r) = ''://'') \<or> take 3 r = ''://''))"

text \<open>The character classes \<open>[^. ]\<close> and \<open>[a-z]\<close>.\<close>

definition not_dot_space :: "char \<Rightarrow> bool" where
  "not_dot_space c = (c \<noteq> CHR ''.'' \<and> c \<noteq> CHR '' '')"

definition lower_az :: "char \<Rightarrow> bool" where
  "lower_az c = (97 \<le> (of_char c :: nat) \<and> (of_char c :: nat) \<le> 122)"

text \<open>The pattern \<open>/^[^. ]+\.[^. ]+\.[a-z]{8}/\<close>. The class \<open>[^. ]\<close> excludes the dot that must
  follow it, so the only split of the text that can match is the one where each \<open>[^. ]+\<close>
  takes the longest run of such characters: a shorter run would be followed by a character
  of the class, not by a dot.\<close>

definition test_record :: "string \<Rightarrow> bool" where
  "test_record key =
     (let seg1 = takeWhile not_dot_space key; r1 = dropWhile not_dot_space key in
      seg1 \<noteq> [] \<and> take 1 r1 = ''.'' \<and>
      (let seg2 = takeWhile not_dot_space (drop 1 r1); r2 = dropWhile not_dot_space (drop 1 r1) in
       seg2 \<noteq> [] \<and> take 1 r2 = ''.'' \<and>
       length (take 8 (drop 1 r2)) = 8 \<and> list_all lower_az (take 8 (drop 1 r2))))"

definition Reference_type :: "string \<Rightarrow> ReferenceType" where
  "Reference_type key =
     (if includes_space key then Unknown
      else if take 5 key = ''mail:'' then Mail
      else if take 1 key = ''/'' then Media
      else if test_http key then Web
      else if test_record key then Record
      else Unknown)"



text \<open>\<open>key.split('.')\<close>, as \<open>db.ts\<close> and \<open>fixer.ts\<close> use it to read the third segment of a
  key: the pieces between the dots, empty pieces included.\<close>

fun split_dot :: "string \<Rightarrow> string list" where
  "split_dot [] = [[]]"
| "split_dot (c # cs) =
     (if c = CHR ''.'' then [] # split_dot cs
      else (case split_dot cs of [] \<Rightarrow> [[c]] | x # xs \<Rightarrow> (c # x) # xs))"

text \<open>The specification's word "whitespace", read as the ASCII characters that JavaScript's
  \<open>\s\<close> matches: tab, line feed, vertical tab, form feed, carriage return, space. The code does
  not use this definition; it is here to state what the specification says.\<close>

definition spec_whitespace :: "char \<Rightarrow> bool" where
  "spec_whitespace c = ((of_char c :: nat) \<in> {9, 10, 11, 12, 13, 32})"

section \<open>Incremental text buffer (textDocument.ts, \<open>FullTextDocument\<close>)\<close>

text \<open>Source: the third file in \<open>src/src/types/document.ts\<close>.\<close>

text \<open>Positions and ranges of the editor protocol. Lines and characters are JavaScript
  numbers; the code tests them for being negative, so they are integers here.\<close>

record Position =
  line :: int
  character :: int

record Range =
  r_start :: Position
  r_end :: Position

definition CarriageReturn :: char where
  "CarriageReturn = CHR 0x0D"

definition LineFeed :: char where
  "LineFeed = CHR 0x0A"

text \<open>\<open>computeLineOffsets\<close>: the \<open>for\<close> loop over the index \<open>i\<close>, with the extra
  \<open>i += 1\<close> that steps over the line feed of a CR LF pair. \<open>result.push\<close> appends.\<close>

function computeLineOffsets_loop :: "string \<Rightarrow> int \<Rightarrow> nat \<Rightarrow> int list \<Rightarrow> int list" where
  "computeLineOffsets_loop text textOffset i result =
     (if i < length text then
        (let ch = text ! i in
         if ch = CarriageReturn \<or> ch = LineFeed then
           (let i' = (if ch = CarriageReturn \<and> i + 1 < length text \<and> text ! (i + 1) = LineFeed
                      then i + 1 else i)
            in computeLineOffsets_loop text textOffset (i' + 1)
                 (result @ [textOffset + int i' + 1]))
         else computeLineOffsets_loop text textOffset (i + 1) result)
      else result)"
  by pat_completeness auto
termination
  by (relation "measure (\<lambda>(text, textOffset, i, result). length text - i)") auto

declare computeLineOffsets_loop.simps [simp del]

definition computeLineOffsets :: "string \<Rightarrow> bool \<Rightarrow> int \<Rightarrow> int list" where
  "computeLineOffsets text isAtLineStart textOffset =
     computeLineOffsets_loop text textOffset 0 (if isAtLineStart then [textOffset] else [])"

text \<open>A JavaScript number that may be \<open>NaN\<close>. Reading a hole of an array gives
  \<open>undefined\<close>, which every use below (\<open>+\<close>, \<open>-\<close>, \<open>>\<close>, \<open>Math.min\<close>, \<open>Math.max\<close>) converts to
  \<open>NaN\<close>; \<open>None\<close> stands for both. Arithmetic with \<open>NaN\<close> gives \<open>NaN\<close>, a comparison with
  \<open>NaN\<close> is false, and \<open>Math.min\<close> and \<open>Math.max\<close> give \<open>NaN\<close> as soon as one argument is.\<close>

type_synonym jsnum = "int option"

fun js_add :: "jsnum \<Rightarrow> jsnum \<Rightarrow> jsnum" where
  "js_add (Some a) (Some b) = Some (a + b)"
| "js_add _ _ = None"

fun js_sub :: "jsnum \<Rightarrow> jsnum \<Rightarrow> jsnum" where
  "js_sub (Some a) (Some b) = Some (a - b)"
| "js_sub _ _ = None"

fun js_gt :: "jsnum \<Rightarrow> jsnum \<Rightarrow> bool" where
  "js_gt (Some a) (Some b) = (a > b)"
| "js_gt _ _ = False"

fun js_min :: "jsnum \<Rightarrow> jsnum \<Rightarrow> jsnum" where
  "js_min (Some a) (Some b) = Some (min a b)"
| "js_min _ _ = None"

fun js_max :: "jsnum \<Rightarrow> jsnum \<Rightarrow> jsnum" where
  "js_max (Some a) (Some b) = Some (max a b)"
| "js_max _ _ = None"

text \<open>The tree-sitter edit record handed to \<open>tree.edit\<close>. The parser is an external
  dependency: the model keeps the text the tree was last parsed from and the edits applied to
  the tree since. In \<open>newEndPosition\<close>, \<open>None\<close> is a position whose column is not a number.\<close>

record InputEdit =
  startIndex :: jsnum
  oldEndIndex :: jsnum
  newEndIndex :: jsnum
  startPosition :: Position
  oldEndPosition :: Position
  newEndPosition :: "Position option"

text \<open>The document. \<open>_lineOffsets\<close> is \<open>undefined\<close> (\<open>None\<close>) or an array of numbers; \<open>update\<close>
  can leave holes and \<open>NaN\<close> in that array, so its entries are \<open>jsnum\<close>s.\<close>

record FullTextDocument =
  version :: int
  content :: string
  lineOffsets :: "jsnum list option"
  tree_text :: string
  tree_edits :: "InputEdit list"

text \<open>\<open>getLineOffsets\<close> computes the table on first use and stores it in the document; it
  returns the table together with the document holding it.\<close>

definition getLineOffsets :: "FullTextDocument \<Rightarrow> jsnum list \<times> FullTextDocument" where
  "getLineOffsets d =
     (case lineOffsets d of
        None \<Rightarrow> (let t = map Some (computeLineOffsets (content d) True 0)
                 in (t, d\<lparr>lineOffsets := Some t\<rparr>))
      | Some t \<Rightarrow> (t, d))"

text \<open>The \<open>while (low < high)\<close> loop of \<open>positionAt\<close>. Every read \<open>lineOffsets[mid]\<close> has
  \<open>mid < high \<le> lineOffsets.length\<close>; where the entry is a hole or \<open>NaN\<close> the test
  \<open>lineOffsets[mid] > ioffset\<close> is false.\<close>

function positionAt_loop :: "jsnum list \<Rightarrow> int \<Rightarrow> nat \<Rightarrow> nat \<Rightarrow> nat" where
  "positionAt_loop t ioffset low high =
     (if low < high then
        (let mid = (low + high) div 2 in
         if js_gt (t ! mid) (Some ioffset) then positionAt_loop t ioffset low mid
         else positionAt_loop t ioffset (mid + 1) high)
      else low)"
  by pat_completeness auto
termination
  by (relation "measure (\<lambda>(t, ioffset, low, high). high - low)") auto

declare positionAt_loop.simps [simp del]

text \<open>\<open>positionAt\<close> at an offset that is a number. The result is \<open>None\<close> when the character of
  the returned position is not a number: when the loop ends with \<open>low = 0\<close> the source reads
  \<open>lineOffsets[-1]\<close>, which is \<open>undefined\<close>, and returns line \<open>-1\<close>; when \<open>lineOffsets[line]\<close> is
  a hole or \<open>NaN\<close>, the difference \<open>ioffset - lineOffsets[line]\<close> is \<open>NaN\<close>.\<close>

definition positionAt :: "FullTextDocument \<Rightarrow> int \<Rightarrow> Position option \<times> FullTextDocument" where
  "positionAt d offset =
     (let ioffset = max (min offset (int (length (content d)))) 0;
          (t, d') = getLineOffsets d;
          high = length t
      in if high = 0 then (Some \<lparr>line = 0, character = ioffset\<rparr>, d')
         else (let low = positionAt_loop t ioffset 0 high in
               if low = 0 then (None, d')
               else (case js_sub (Some ioffset) (t ! (low - 1)) of
                       None \<Rightarrow> (None, d')
                     | Some c \<Rightarrow> (Some \<lparr>line = int low - 1, character = c\<rparr>, d'))))"

text \<open>\<open>positionAt\<close> at an offset that may be \<open>NaN\<close>, as \<open>update\<close> calls it. With \<open>NaN\<close>,
  \<open>ioffset\<close> is \<open>NaN\<close>: for an empty table the source returns the character \<open>ioffset\<close>;
  otherwise every test \<open>lineOffsets[mid] > ioffset\<close> is false, the loop ends at the length of
  the table, and the character \<open>ioffset - lineOffsets[line]\<close> is \<open>NaN\<close>. Either way the character
  is not a number, and the table has been read through \<open>getLineOffsets\<close>.\<close>

definition positionAt_num :: "FullTextDocument \<Rightarrow> jsnum \<Rightarrow> Position option \<times> FullTextDocument" where
  "positionAt_num d offset =
     (case offset of
        Some n \<Rightarrow> positionAt d n
      | None \<Rightarrow> (None, snd (getLineOffsets d)))"

text \<open>\<open>offsetAt\<close>. The result is \<open>NaN\<close> when one of the two table entries it reads is a hole
  or \<open>NaN\<close>.\<close>

definition offsetAt :: "FullTextDocument \<Rightarrow> Position \<Rightarrow> jsnum \<times> FullTextDocument" where
  "offsetAt d position =
     (let (t, d') = getLineOffsets d in
      if line position \<ge> int (length t) then (Some (int (length (content d))), d')
      else if line position < 0 then (Some 0, d')
      else
        (let lineOffset = t ! nat (line position);
             nextLineOffset = (if line position + 1 < int (length t)
                               then t ! nat (line position + 1)
                               else Some (int (length (content d))))
         in (js_max (js_min (js_add lineOffset (Some (character position))) nextLineOffset)
               lineOffset, d')))"

definition lineCount :: "FullTextDocument \<Rightarrow> nat" where
  "lineCount d = length (fst (getLineOffsets d))"

text \<open>A document as the constructor leaves it: no table yet, the tree parsed from the
  content.\<close>

definition create :: "int \<Rightarrow> string \<Rightarrow> FullTextDocument" where
  "create v txt =
     \<lparr>version = v, content = txt, lineOffsets = None, tree_text = txt, tree_edits = []\<rparr>"


subsection \<open>Line starts, structurally\<close>

text \<open>The same table by recursion over the text: the offsets that follow each line
  terminator, where \<open>b\<close> is the offset of the first character. It is only used to reason
  about the loop above.\<close>

fun lineStarts :: "string \<Rightarrow> int \<Rightarrow> int list" where
  "lineStarts [] b = []"
| "lineStarts [c] b = (if c = CarriageReturn \<or> c = LineFeed then [b + 1] else [])"
| "lineStarts (c # d # ds) b =
     (if c = CarriageReturn \<and> d = LineFeed then (b + 2) # lineStarts ds (b + 2)
      else if c = CarriageReturn \<or> c = LineFeed then (b + 1) # lineStarts (d # ds) (b + 1)
      else lineStarts (d # ds) (b + 1))"

subsection \<open>Coherent tables\<close>

text \<open>What the binary search relies on: the table starts at offset 0, ascends, and stays
  within the content. The table that \<open>computeLineOffsets\<close> gives for the content is one.\<close>

definition table_ok :: "int list \<Rightarrow> nat \<Rightarrow> bool" where
  "table_ok t n = (t \<noteq> [] \<and> t ! 0 = 0 \<and> sorted t \<and> (\<forall>v \<in> set t. v \<le> int n))"

subsection \<open>Applying edits (\<open>FullTextDocument.update\<close>)\<close>

text \<open>A content change of the protocol: \<open>{ range?, rangeLength?, text }\<close>.\<close>

record TextDocumentContentChangeEvent =
  c_range :: "Range option"
  c_rangeLength :: "int option"
  c_text :: string

definition isIncremental :: "TextDocumentContentChangeEvent \<Rightarrow> bool" where
  "isIncremental event = (c_range event \<noteq> None)"

definition isFull :: "TextDocumentContentChangeEvent \<Rightarrow> bool" where
  "isFull event = (c_range event = None \<and> c_rangeLength event = None)"

definition getWellformedRange :: "Range \<Rightarrow> Range" where
  "getWellformedRange rng =
     (if line (r_start rng) > line (r_end rng) \<or>
         (line (r_start rng) = line (r_end rng) \<and>
          character (r_start rng) > character (r_end rng))
      then \<lparr>r_start = r_end rng, r_end = r_start rng\<rparr>
      else rng)"

text \<open>JavaScript \<open>s.substring(a, b)\<close>: an index that is \<open>NaN\<close> counts as 0, both indices are
  clamped to \<open>[0, s.length]\<close> and swapped when the first exceeds the second.\<close>

definition substring :: "string \<Rightarrow> jsnum \<Rightarrow> jsnum \<Rightarrow> string" where
  "substring s a b =
     (let n = int (length s);
          a' = max 0 (min (case a of None \<Rightarrow> 0 | Some v \<Rightarrow> v) n);
          b' = max 0 (min (case b of None \<Rightarrow> 0 | Some v \<Rightarrow> v) n);
          lo = min a' b';
          hi = max a' b'
      in take (nat (hi - lo)) (drop (nat lo) s))"

text \<open>\<open>a.splice(start, deleteCount, ...items)\<close> for \<open>start \<ge> 0\<close>: \<open>start\<close> is clamped to the length
  and \<open>deleteCount\<close> to what is left, which \<open>take\<close> and \<open>drop\<close> do by themselves; a negative
  \<open>deleteCount\<close> counts as 0.\<close>

definition splice :: "'a list \<Rightarrow> nat \<Rightarrow> int \<Rightarrow> 'a list \<Rightarrow> 'a list" where
  "splice a start deleteCount items =
     take start a @ items @ drop (start + nat deleteCount) a"

text \<open>The assignment \<open>a[i] = v\<close> on an array: an index below the length overwrites; an index
  at or beyond the length extends the array up to that index and leaves holes in between.
  Nothing is raised.\<close>

definition array_set :: "jsnum list \<Rightarrow> nat \<Rightarrow> jsnum \<Rightarrow> jsnum list" where
  "array_set a i v =
     (if i < length a then a[i := v] else a @ replicate (i - length a) None @ [v])"

text \<open>\<open>computeLineOffsets(change.text, false, startOffset)\<close> where \<open>startOffset\<close> may be \<open>NaN\<close>:
  each entry is \<open>textOffset + i + 1\<close>, so with \<open>NaN\<close> the same number of entries comes out and
  each of them is \<open>NaN\<close>.\<close>

definition computeLineOffsets_num :: "string \<Rightarrow> bool \<Rightarrow> jsnum \<Rightarrow> jsnum list" where
  "computeLineOffsets_num str isAtLineStart textOffset =
     (case textOffset of
        Some off \<Rightarrow> map Some (computeLineOffsets str isAtLineStart off)
      | None \<Rightarrow> map (\<lambda>v. None) (computeLineOffsets str isAtLineStart 0))"

datatype update_error = UnknownChangeEvent

text \<open>The maintenance of the line-offset table after an incremental edit: the three branches
  on the number of added line starts (the \<open>for\<close> loop of assignments
  \<open>lineOffsets[i + startLine + 1] = addedLineOffsets[i]\<close>, \<open>splice\<close>, or \<open>slice\<close> and \<open>concat\<close>),
  then the loop \<open>lineOffsets[i] += diff\<close> over the entries from
  \<open>startLine + 1 + addedLineOffsets.length\<close> on, which runs when \<open>diff !== 0\<close> (so also when
  \<open>diff\<close> is \<open>NaN\<close>).\<close>

definition updateLineOffsets ::
    "jsnum list \<Rightarrow> nat \<Rightarrow> nat \<Rightarrow> jsnum list \<Rightarrow> jsnum \<Rightarrow> jsnum list" where
  "updateLineOffsets t startLine endLine addedLineOffsets diff =
     (let n = length addedLineOffsets;
          t' = (if int endLine - int startLine = int n then
                  fold (\<lambda>i a. array_set a (i + startLine + 1) (addedLineOffsets ! i)) [0..<n] t
                else if n < 10000 then
                  splice t (startLine + 1) (int endLine - int startLine) addedLineOffsets
                else
                  take (startLine + 1) t @ addedLineOffsets @ drop (endLine + 1) t)
      in if diff \<noteq> Some 0
         then take (startLine + 1 + n) t' @ map (\<lambda>v. js_add v diff) (drop (startLine + 1 + n) t')
         else t')"

text \<open>One round of the \<open>changes.forEach\<close> loop.\<close>

definition applyChange ::
    "FullTextDocument \<Rightarrow> TextDocumentContentChangeEvent \<Rightarrow> update_error + FullTextDocument" where
  "applyChange d change =
     (if isIncremental change then
        (let rng = getWellformedRange (the (c_range change));
             (startOffset, d1) = offsetAt d (r_start rng);
             (endOffset, d2) = offsetAt d1 (r_end rng);
             old = content d2;
             d3 = d2\<lparr>content := substring old (Some 0) startOffset @ c_text change @
                                  substring old endOffset (Some (int (length old)))\<rparr>;
             startLine = nat (max (line (r_start rng)) 0);
             endLine = nat (max (line (r_end rng)) 0);
             addedLineOffsets = computeLineOffsets_num (c_text change) False startOffset;
             diff = js_sub (Some (int (length (c_text change)))) (js_sub endOffset startOffset);
             t' = updateLineOffsets (fst (getLineOffsets d2)) startLine endLine addedLineOffsets diff;
             d4 = d3\<lparr>lineOffsets := Some t'\<rparr>;
             newEndOffset = js_add startOffset (Some (int (length (c_text change))));
             (newEndPosition, d5) = positionAt_num d4 newEndOffset
         in Inr (d5\<lparr>tree_edits := tree_edits d5 @
                    [\<lparr>startIndex = startOffset, oldEndIndex = endOffset,
                      newEndIndex = newEndOffset,
                      startPosition = r_start rng, oldEndPosition = r_end rng,
                      newEndPosition = newEndPosition\<rparr>]\<rparr>))
      else if isFull change then
        Inr (d\<lparr>content := c_text change, lineOffsets := None\<rparr>)
      else Inl UnknownChangeEvent)"

text \<open>The loop itself. An exception leaves the loop at once; the document keeps what the
  earlier changes did to it, so the error carries that document.\<close>

fun applyChanges ::
    "FullTextDocument \<Rightarrow> TextDocumentContentChangeEvent list \<Rightarrow>
     (update_error \<times> FullTextDocument) + FullTextDocument" where
  "applyChanges d [] = Inr d"
| "applyChanges d (change # changes) =
     (case applyChange d change of
        Inl e \<Rightarrow> Inl (e, d)
      | Inr d' \<Rightarrow> applyChanges d' changes)"

text \<open>\<open>update(changes, version)\<close>: after the loop the tree is parsed again from the content
  and the version is set.\<close>

definition update ::
    "FullTextDocument \<Rightarrow> TextDocumentContentChangeEvent list \<Rightarrow> int \<Rightarrow>
     (update_error \<times> FullTextDocument) + FullTextDocument" where
  "update d changes v =
     (case applyChanges d changes of
        Inl e \<Rightarrow> Inl e
      | Inr d' \<Rightarrow> Inr (d'\<lparr>tree_text := content d', tree_edits := [], version := v\<rparr>))"

text \<open>\<open>reparse()\<close> parses the content from scratch.\<close>

definition reparse :: "FullTextDocument \<Rightarrow> FullTextDocument" where
  "reparse d = d\<lparr>tree_text := content d, tree_edits := []\<rparr>"

section \<open>The store (store.ts) and its entities (types.ts, types/document.ts, types/workspace.ts)\<close>

text \<open>Sources: \<open>src/unnamed/part_003\<close> (the store), \<open>src/src/types/document.ts\<close> (the
  document, and after it the models \<open>Job\<close> and \<open>Task\<close>), \<open>src/src/types/workspace.ts\<close>.\<close>

datatype error =
    IllegalUndefinedValue
  | DuplicateKey string
  | UnsyncedDocument
  | UpdateFailed update_error
  | MissingVersion
  | TypeError
  | RequiredCaptureMissing string

datatype DocumentState = editing | indexing

datatype TaskOperation = Audit | Extract | Index

datatype WorkspaceType = single_file | multi_file

text \<open>A diagnostic of the editor protocol; the auditor that produces them is outside this
  development.\<close>

datatype Diagnostic = Diagnostic string string

text \<open>A query match of the parser, as the wrappers of \<open>queryWrappers.ts\<close> read it: the text of
  each named capture. A fact is a match together with the uri of its document.\<close>

type_synonym QueryMatch = "(string \<times> string) list"

record Fact =
  f_uri :: string
  f_match :: QueryMatch

text \<open>What a workspace memoizes: the three lookup tables (JavaScript \<open>Map\<close>s, in insertion
  order) and the outline, whose builder walks syntax trees and the file system and is a
  parameter here.\<close>

datatype 'o ws_value = Table "(string \<times> Fact) list" | Outline 'o

record Document =
  d_id :: nat
  d_uri :: string
  d_workspaceId :: nat
  d_state :: DocumentState
  d_diagnostics :: "Diagnostic list option"
  tsDoc :: FullTextDocument
  d_cache :: "(string \<times> Fact list) list"

record 'o Workspace =
  w_id :: nat
  w_uri :: string
  w_cache :: "(string \<times> 'o ws_value) list"

record Task =
  t_id :: nat
  t_operation :: TaskOperation
  t_documentId :: "nat option"
  t_workspaceId :: "nat option"
  t_dependencyIds :: "nat list"
  t_lastCompleted :: "nat option"

text \<open>A job owns a promise. The promise is identified with the job's id; which promises have
  been fulfilled is part of the server state below (nothing in the sources calls \<open>reject\<close>).\<close>

record Job =
  j_id :: nat
  j_taskId :: nat

text \<open>What happens to jobs, in order: \<open>executeTask\<close> is entered for a job and its task; a run
  completes at a time stamp; a cancelled id is popped and dropped; a run ends in an exception
  (a rejected promise that nothing handles).\<close>

datatype event =
    ExecuteTask nat nat
  | Completed nat nat nat
  | Dropped nat
  | Aborted nat

text \<open>The server: the four collections of the store, and the state of the task manager (the
  priority queue, the cancelled ids, the class counter of \<open>Job\<close>, the runs of \<open>processJob\<close>
  that are suspended at \<open>await this.executeTask(task)\<close>, the fulfilled promises and the
  history of events).\<close>

record 'o Server =
  documents :: "Document list"
  workspaces :: "'o Workspace list"
  tasks :: "Task list"
  jobs :: "Job list"
  priorityQueue :: "nat list"
  cancelled :: "nat set"
  jobIdCounter :: nat
  running :: "Job list"
  fulfilled :: "nat list"
  events :: "event list"

text \<open>Modelled from the spec: the collections are Loki collections, whose code is not in the
  sources. A collection enforces its unique keys on insert (\<open>DuplicateKey\<close>), \<open>by\<close> looks an
  entity up by a unique key, \<open>find\<close> scans in insertion order, \<open>remove\<close> deletes the entity.
  The specification is silent on \<open>update\<close> of an entity that is no longer in its collection;
  it is taken to raise, and no result below rests on that case.\<close>

definition documents_by_uri :: "'o Server \<Rightarrow> string \<Rightarrow> Document option" where
  "documents_by_uri s uri = find (\<lambda>d. d_uri d = uri) (documents s)"

definition documents_by_id :: "'o Server \<Rightarrow> nat \<Rightarrow> Document option" where
  "documents_by_id s i = find (\<lambda>d. d_id d = i) (documents s)"

definition workspaces_by_uri :: "'o Server \<Rightarrow> string \<Rightarrow> 'o Workspace option" where
  "workspaces_by_uri s uri = find (\<lambda>w. w_uri w = uri) (workspaces s)"

definition workspaces_by_id :: "'o Server \<Rightarrow> nat \<Rightarrow> 'o Workspace option" where
  "workspaces_by_id s i = find (\<lambda>w. w_id w = i) (workspaces s)"

definition tasks_by_id :: "'o Server \<Rightarrow> nat \<Rightarrow> Task option" where
  "tasks_by_id s i = find (\<lambda>t. t_id t = i) (tasks s)"

definition jobs_by_id :: "'o Server \<Rightarrow> nat \<Rightarrow> Job option" where
  "jobs_by_id s i = find (\<lambda>j. j_id j = i) (jobs s)"

definition jobs_by_taskId :: "'o Server \<Rightarrow> nat \<Rightarrow> Job option" where
  "jobs_by_taskId s i = find (\<lambda>j. j_taskId j = i) (jobs s)"

definition store_jobs_insert :: "'o Server \<Rightarrow> Job \<Rightarrow> error + 'o Server" where
  "store_jobs_insert s job =
     (if jobs_by_id s (j_id job) \<noteq> None then Inl (DuplicateKey ''id'')
      else if jobs_by_taskId s (j_taskId job) \<noteq> None then Inl (DuplicateKey ''taskId'')
      else Inr (s\<lparr>jobs := jobs s @ [job]\<rparr>))"

definition store_documents_update :: "'o Server \<Rightarrow> Document \<Rightarrow> error + 'o Server" where
  "store_documents_update s doc =
     (if documents_by_id s (d_id doc) = None then Inl UnsyncedDocument
      else Inr (s\<lparr>documents := map (\<lambda>d. if d_id d = d_id doc then doc else d) (documents s)\<rparr>))"

definition store_tasks_update :: "'o Server \<Rightarrow> Task \<Rightarrow> error + 'o Server" where
  "store_tasks_update s task =
     (if tasks_by_id s (t_id task) = None then Inl UnsyncedDocument
      else Inr (s\<lparr>tasks := map (\<lambda>t. if t_id t = t_id task then task else t) (tasks s)\<rparr>))"

text \<open>The association getters of the entities: each is a query of the store.\<close>

definition Task_job :: "'o Server \<Rightarrow> Task \<Rightarrow> Job option" where
  "Task_job s task = jobs_by_taskId s (t_id task)"

definition Task_dependencies :: "'o Server \<Rightarrow> Task \<Rightarrow> Task list" where
  "Task_dependencies s task = filter (\<lambda>t. t_id t \<in> set (t_dependencyIds task)) (tasks s)"

definition Task_document :: "'o Server \<Rightarrow> Task \<Rightarrow> Document option" where
  "Task_document s task =
     (case t_documentId task of None \<Rightarrow> None | Some i \<Rightarrow> documents_by_id s i)"

definition Job_task :: "'o Server \<Rightarrow> Job \<Rightarrow> Task option" where
  "Job_task s job = tasks_by_id s (j_taskId job)"

definition Document_tasks :: "'o Server \<Rightarrow> Document \<Rightarrow> Task list" where
  "Document_tasks s doc = filter (\<lambda>t. t_documentId t = Some (d_id doc)) (tasks s)"

definition Document_auditTask :: "'o Server \<Rightarrow> Document \<Rightarrow> Task option" where
  "Document_auditTask s doc =
     find (\<lambda>t. t_documentId t = Some (d_id doc) \<and> t_operation t = Audit) (tasks s)"

definition Document_workspace :: "'o Server \<Rightarrow> Document \<Rightarrow> error + 'o Workspace" where
  "Document_workspace s doc =
     (case workspaces_by_id s (d_workspaceId doc) of
        None \<Rightarrow> Inl IllegalUndefinedValue
      | Some w \<Rightarrow> Inr w)"

definition Workspace_documents :: "'o Server \<Rightarrow> 'o Workspace \<Rightarrow> Document list" where
  "Workspace_documents s w = filter (\<lambda>d. d_workspaceId d = w_id w) (documents s)"

text \<open>\<open>Workspace.type\<close>: the pattern \<open>/\.rst$/\<close> on the uri.\<close>

definition Workspace_type :: "'o Workspace \<Rightarrow> WorkspaceType" where
  "Workspace_type w = (if suffix ''.rst'' (w_uri w) then single_file else multi_file)"

section \<open>The task manager (taskManager.ts)\<close>

text \<open>Source: \<open>src/src/taskManager.ts\<close>.\<close>

text \<open>\<open>jobCompare\<close>, the comparator of the priority queue.\<close>

definition jobCompare :: "'o Server \<Rightarrow> nat \<Rightarrow> nat \<Rightarrow> error + int" where
  "jobCompare s jobId1 jobId2 =
     (if jobId1 \<in> cancelled s then Inr 1
      else if jobId2 \<in> cancelled s then Inr (- 1)
      else
        (case jobs_by_id s jobId1 of
           None \<Rightarrow> Inl IllegalUndefinedValue
         | Some job1 \<Rightarrow>
        (case jobs_by_id s jobId2 of
           None \<Rightarrow> Inl IllegalUndefinedValue
         | Some job2 \<Rightarrow>
        (case Job_task s job1 of
           None \<Rightarrow> Inl TypeError
         | Some task1 \<Rightarrow>
        (case Job_task s job2 of
           None \<Rightarrow> Inl TypeError
         | Some task2 \<Rightarrow>
             if t_id task2 \<in> set (t_dependencyIds task1) then Inr (- 1)
             else if t_id task1 \<in> set (t_dependencyIds task2) then Inr 1
             else Inr 0)))))"

text \<open>Modelled from the spec: the queue is a \<open>BinaryHeap\<close> of the \<open>priorityqueue\<close> package,
  which is not in the sources. \<open>push\<close> adds an id; \<open>pop\<close> removes and returns an id that the
  comparator ranks highest (here: the first id that no later id beats), or nothing when the
  queue is empty. A queue of one id gives that id whatever the heap does.\<close>

fun select_top :: "(nat \<Rightarrow> nat \<Rightarrow> error + int) \<Rightarrow> nat \<Rightarrow> nat list \<Rightarrow> error + nat" where
  "select_top cmp best [] = Inr best"
| "select_top cmp best (y # ys) =
     (case cmp y best of
        Inl e \<Rightarrow> Inl e
      | Inr c \<Rightarrow> select_top cmp (if c > 0 then y else best) ys)"

definition queue_pop :: "'o Server \<Rightarrow> error + (nat option \<times> 'o Server)" where
  "queue_pop s =
     (case priorityQueue s of
        [] \<Rightarrow> Inr (None, s)
      | x # xs \<Rightarrow>
          (case select_top (jobCompare s) x xs of
             Inl e \<Rightarrow> Inl e
           | Inr best \<Rightarrow> Inr (Some best, s\<lparr>priorityQueue := remove1 best (priorityQueue s)\<rparr>)))"

text \<open>\<open>processJob\<close> up to its \<open>await\<close>. It is an \<open>async\<close> function: it runs at once, inside the
  call that signalled the queue, until it awaits \<open>executeTask\<close>; an exception before that
  point rejects a promise that nobody observes, and the run ends. \<open>executeTask\<close> is entered
  as part of this first stretch: the auditor starts on the document here.\<close>

definition processJob_begin :: "'o Server \<Rightarrow> nat option \<Rightarrow> 'o Server" where
  "processJob_begin s popped =
     (case popped of
        None \<Rightarrow> s
      | Some jobId \<Rightarrow>
          if jobId \<in> cancelled s then
            s\<lparr>cancelled := cancelled s - {jobId}, events := events s @ [Dropped jobId]\<rparr>
          else
            (case jobs_by_id s jobId of
               None \<Rightarrow> s\<lparr>events := events s @ [Aborted jobId]\<rparr>
             | Some job \<Rightarrow>
                 (case Job_task s job of
                    None \<Rightarrow> s\<lparr>events := events s @ [Aborted jobId]\<rparr>
                  | Some task \<Rightarrow>
                      s\<lparr>running := running s @ [job],
                        events := events s @ [ExecuteTask jobId (t_id task)]\<rparr>)))"

text \<open>The subscriber of \<open>jobQueue$\<close>: \<open>Subject.next\<close> calls it synchronously; it pops an id and
  calls \<open>processJob\<close>. An exception of the comparator inside \<open>pop\<close> rejects the subscriber's
  promise and nothing else happens.\<close>

definition jobQueue_next :: "'o Server \<Rightarrow> 'o Server" where
  "jobQueue_next s =
     (case queue_pop s of
        Inl e \<Rightarrow> s
      | Inr (popped, s') \<Rightarrow> processJob_begin s' popped)"

datatype TaskIdent = ByTask Task | ById nat

text \<open>The end of the \<open>job === undefined\<close> branch of \<open>submitTask\<close>: a new job is constructed
  (the class counter gives its id), inserted, its id is pushed and the queue is signalled.
  The call returns the promise of the new job.\<close>

definition createJob :: "'o Server \<Rightarrow> Task \<Rightarrow> error + nat \<times> 'o Server" where
  "createJob s task =
     (let newJob = \<lparr>j_id = jobIdCounter s + 1, j_taskId = t_id task\<rparr>;
          s1 = s\<lparr>jobIdCounter := jobIdCounter s + 1\<rparr>
      in case store_jobs_insert s1 newJob of
           Inl e \<Rightarrow> Inl e
         | Inr s2 \<Rightarrow>
             Inr (j_id newJob,
                  jobQueue_next (s2\<lparr>priorityQueue := priorityQueue s2 @ [j_id newJob]\<rparr>)))"

text \<open>\<open>submitTask\<close>. The recursion through the dependencies has no bound in the source (a
  cycle of dependencies recurses until the stack overflows), so the function takes fuel:
  \<open>None\<close> is "did not return". The promise it returns is named by the id of its job.\<close>

fun submitTask :: "nat \<Rightarrow> 'o Server \<Rightarrow> TaskIdent \<Rightarrow> (error + nat \<times> 'o Server) option"
and submitDependencies :: "nat \<Rightarrow> 'o Server \<Rightarrow> Task list \<Rightarrow> (error + 'o Server) option" where
  "submitTask 0 s taskIdent = None"
| "submitTask (Suc n) s taskIdent =
     (case (case taskIdent of
              ById i \<Rightarrow> (case tasks_by_id s i of None \<Rightarrow> Inl IllegalUndefinedValue
                                               | Some t \<Rightarrow> Inr t)
            | ByTask t \<Rightarrow> Inr t) of
        Inl e \<Rightarrow> Some (Inl e)
      | Inr task \<Rightarrow>
          (case Task_job s task of
             Some job \<Rightarrow> Some (Inr (j_id job, s))
           | None \<Rightarrow>
               (case submitDependencies n s (Task_dependencies s task) of
                  None \<Rightarrow> None
                | Some (Inl e) \<Rightarrow> Some (Inl e)
                | Some (Inr s1) \<Rightarrow> Some (createJob s1 task))))"
| "submitDependencies n s [] = Some (Inr s)"
| "submitDependencies n s (depTask # rest) =
     (if t_lastCompleted depTask = None \<and> Task_job s depTask = None then
        (case submitTask n s (ByTask depTask) of
           None \<Rightarrow> None
         | Some (Inl e) \<Rightarrow> Some (Inl e)
         | Some (Inr (h, s')) \<Rightarrow> submitDependencies n s' rest)
      else submitDependencies n s rest)"

definition cancelJob :: "'o Server \<Rightarrow> nat \<Rightarrow> 'o Server" where
  "cancelJob s jobId = s\<lparr>cancelled := insert jobId (cancelled s)\<rparr>"

text \<open>The rest of \<open>executeTask\<close> and \<open>processJob\<close>, after the auditor has delivered: the run of
  \<open>job\<close> resumes with the diagnostics and with the clock reading \<open>now\<close>. The captured task and
  document are the entities of the store with the run's ids. For an audit the diagnostics are
  stored in the document; then the task is stamped and updated, the promise is fulfilled and
  the job is removed. An exception on the way (the document or the task is gone) ends the run:
  what was written before it stays, the promise stays pending.\<close>

definition processJob_resume ::
    "'o Server \<Rightarrow> Job \<Rightarrow> Diagnostic list \<Rightarrow> nat \<Rightarrow> 'o Server" where
  "processJob_resume s job diags now =
     (let s0 = s\<lparr>running := remove1 job (running s)\<rparr>;
          abort = (\<lambda>st. st\<lparr>events := events st @ [Aborted (j_id job)]\<rparr>)
      in case Job_task s0 job of
           None \<Rightarrow> abort s0
         | Some task \<Rightarrow>
             (case (if t_operation task = Audit then
                      (case Task_document s0 task of
                         None \<Rightarrow> Inl IllegalUndefinedValue
                       | Some document \<Rightarrow>
                           store_documents_update s0 (document\<lparr>d_diagnostics := Some diags\<rparr>))
                    else Inr s0) of
                Inl e \<Rightarrow> abort s0
              | Inr s1 \<Rightarrow>
                  (case store_tasks_update s1 (task\<lparr>t_lastCompleted := Some now\<rparr>) of
                     Inl e \<Rightarrow> abort s1
                   | Inr s2 \<Rightarrow>
                       s2\<lparr>fulfilled := fulfilled s2 @ [j_id job],
                          jobs := filter (\<lambda>j. j_id j \<noteq> j_id job) (jobs s2),
                          events := events s2 @ [Completed (j_id job) (t_id task) now]\<rparr>)))"

text \<open>What can happen to the task manager, seen from outside: a task of the store is
  submitted and the call returns its promise, an id is cancelled, or the suspended run of a
  job resumes (the auditor has delivered diagnostics and the clock reads \<open>now\<close>).\<close>

datatype action =
    Submit Task
  | Cancel nat
  | Resume nat "Diagnostic list" nat

inductive step :: "action \<Rightarrow> 'o Server \<Rightarrow> 'o Server \<Rightarrow> bool" where
  submit: "tasks_by_id s (t_id t) = Some t \<Longrightarrow> submitTask n s (ByTask t) = Some (Inr (h, s')) \<Longrightarrow>
           step (Submit t) s s'"
| cancel: "step (Cancel jobId) s (cancelJob s jobId)"
| resume: "job \<in> set (running s) \<Longrightarrow>
           step (Resume (j_id job) diags now) s (processJob_resume s job diags now)"

inductive run :: "action list \<Rightarrow> 'o Server \<Rightarrow> 'o Server \<Rightarrow> bool" where
  idle: "run [] s s"
| then_step: "run acts s s' \<Longrightarrow> step a s' s'' \<Longrightarrow> run (acts @ [a]) s s''"

text \<open>A task manager that has just been constructed, over a store that holds documents,
  workspaces and tasks but no job.\<close>

definition fresh :: "Document list \<Rightarrow> 'o Workspace list \<Rightarrow> Task list \<Rightarrow> 'o Server" where
  "fresh ds ws ts =
     \<lparr>documents = ds, workspaces = ws, tasks = ts, jobs = [], priorityQueue = [],
      cancelled = {}, jobIdCounter = 0, running = [], fulfilled = [], events = []\<rparr>"

text \<open>Whether an action is the resumption of the run of job \<open>h\<close>.\<close>

fun resumes :: "nat \<Rightarrow> action \<Rightarrow> bool" where
  "resumes h (Resume j diags now) = (j = h)"
| "resumes h a = False"

text \<open>Whether an event is the start of the unit of work of task \<open>tid\<close>.\<close>

fun executes :: "nat \<Rightarrow> event \<Rightarrow> bool" where
  "executes tid (ExecuteTask j t) = (t = tid)"
| "executes tid e = False"

text \<open>What \<open>createJob\<close> comes to when the queue is empty before the push, written as one
  update of the state: the new job with id \<open>h\<close> for the task \<open>tid\<close> is stored and its id is
  popped at once; a cancelled id is dropped, otherwise the run begins. It is used to reason
  about \<open>createJob\<close>, not to define it.\<close>

definition begun :: "'o Server \<Rightarrow> nat \<Rightarrow> nat \<Rightarrow> 'o Server" where
  "begun s h tid =
     (if h \<in> cancelled s
      then s\<lparr>jobs := jobs s @ [\<lparr>j_id = h, j_taskId = tid\<rparr>], jobIdCounter := h,
             cancelled := cancelled s - {h}, events := events s @ [Dropped h]\<rparr>
      else (case tasks_by_id s tid of
              None \<Rightarrow> s\<lparr>jobs := jobs s @ [\<lparr>j_id = h, j_taskId = tid\<rparr>], jobIdCounter := h,
                         events := events s @ [Aborted h]\<rparr>
            | Some task' \<Rightarrow>
                s\<lparr>jobs := jobs s @ [\<lparr>j_id = h, j_taskId = tid\<rparr>], jobIdCounter := h,
                  running := running s @ [\<lparr>j_id = h, j_taskId = tid\<rparr>],
                  events := events s @ [ExecuteTask h (t_id task')]\<rparr>))"

subsection \<open>Invariants of the task manager\<close>

text \<open>Job \<open>j\<close> has not run and its promise is not settled: no run of it is suspended, its
  promise is not fulfilled, and \<open>executeTask\<close> was never entered for it.\<close>

definition untouched :: "nat \<Rightarrow> 'o Server \<Rightarrow> bool" where
  "untouched j s =
     (j \<notin> j_id ` set (running s) \<and> j \<notin> set (fulfilled s) \<and>
      (\<forall>tid. ExecuteTask j tid \<notin> set (events s)))"

text \<open>Between two calls the queue is empty, and every id that runs, has run or is settled
  has been given out by the counter.\<close>

definition ids_bounded :: "'o Server \<Rightarrow> bool" where
  "ids_bounded s =
     (priorityQueue s = [] \<and>
      (\<forall>i \<in> j_id ` set (running s). i \<le> jobIdCounter s) \<and>
      (\<forall>i \<in> set (fulfilled s). i \<le> jobIdCounter s) \<and>
      (\<forall>i tid. ExecuteTask i tid \<in> set (events s) \<longrightarrow> i \<le> jobIdCounter s))"

text \<open>An id that is still to be given out is cancelled, and job \<open>j\<close> is untouched.\<close>

definition cancelled_ahead :: "nat \<Rightarrow> 'o Server \<Rightarrow> bool" where
  "cancelled_ahead j s =
     (priorityQueue s = [] \<and> untouched j s \<and> (jobIdCounter s < j \<longrightarrow> j \<in> cancelled s))"

text \<open>Task \<open>tid\<close> has job \<open>h\<close> in the store, and since the events \<open>ev0\<close> no \<open>executeTask\<close>
  was entered for the task.\<close>

definition job_held :: "nat \<Rightarrow> nat \<Rightarrow> event list \<Rightarrow> 'o Server \<Rightarrow> bool" where
  "job_held h tid ev0 s =
     (priorityQueue s = [] \<and>
      (\<exists>job. jobs_by_taskId s tid = Some job \<and> j_id job = h) \<and>
      (\<exists>ev. events s = ev0 @ ev \<and> \<not> list_ex (executes tid) ev))"

text \<open>While the dependencies of a task are submitted from the state \<open>s\<close>: tasks stay, no id
  gets cancelled, the counter only grows, and \<open>executeTask\<close> is entered for task \<open>tid\<close> only if
  a job for it is stored.\<close>

definition deps_inv :: "'o Server \<Rightarrow> nat \<Rightarrow> 'o Server \<Rightarrow> bool" where
  "deps_inv s tid s' =
     (priorityQueue s' = [] \<and> tasks s' = tasks s \<and> cancelled s' \<subseteq> cancelled s \<and>
      jobIdCounter s \<le> jobIdCounter s' \<and>
      (\<exists>ev. events s' = events s @ ev \<and>
            (list_ex (executes tid) ev \<longrightarrow> jobs_by_taskId s' tid \<noteq> None)))"

text \<open>The unique keys of the jobs collection: no two stored jobs share an id or a task.\<close>

definition jobs_unique :: "'o Server \<Rightarrow> bool" where
  "jobs_unique s =
     (priorityQueue s = [] \<and> distinct (map j_id (jobs s)) \<and> distinct (map j_taskId (jobs s)))"

subsection \<open>A small store\<close>

text \<open>Two documents of one multi-file workspace, each with its audit task; the task of
  \<open>b.rst\<close> depends on the task of \<open>a.rst\<close>.\<close>

definition docA :: Document where
  "docA = \<lparr>d_id = 1, d_uri = ''file:///w/a.rst'', d_workspaceId = 1, d_state = editing,
           d_diagnostics = None, tsDoc = create 0 ''a'', d_cache = []\<rparr>"

definition docB :: Document where
  "docB = \<lparr>d_id = 2, d_uri = ''file:///w/b.rst'', d_workspaceId = 1, d_state = indexing,
           d_diagnostics = None, tsDoc = create 0 ''b'', d_cache = []\<rparr>"

definition wsW :: "unit Workspace" where
  "wsW = \<lparr>w_id = 1, w_uri = ''file:///w'', w_cache = []\<rparr>"

definition taskA :: Task where
  "taskA = \<lparr>t_id = 1, t_operation = Audit, t_documentId = Some 1, t_workspaceId = None,
            t_dependencyIds = [], t_lastCompleted = None\<rparr>"

definition taskB :: Task where
  "taskB = \<lparr>t_id = 2, t_operation = Audit, t_documentId = Some 2, t_workspaceId = None,
            t_dependencyIds = [1], t_lastCompleted = None\<rparr>"

definition server0 :: "unit Server" where
  "server0 = fresh [docA, docB] [wsW] [taskA, taskB]"

text \<open>The small store after \<open>cancelJob(1)\<close> and the submission of task 1 (the job is
  dropped), and after the submission of task 1 alone (the job runs).\<close>

definition server_dropped :: "unit Server" where
  "server_dropped =
     server0\<lparr>jobs := [\<lparr>j_id = 1, j_taskId = 1\<rparr>], jobIdCounter := 1, events := [Dropped 1]\<rparr>"

definition server_running :: "unit Server" where
  "server_running =
     server0\<lparr>jobs := [\<lparr>j_id = 1, j_taskId = 1\<rparr>], jobIdCounter := 1,
             running := [\<lparr>j_id = 1, j_taskId = 1\<rparr>], events := [ExecuteTask 1 1]\<rparr>"

section \<open>The server's handling of documents and workspaces (server.ts)\<close>

text \<open>Source: \<open>src/unnamed/part_007\<close>.\<close>

text \<open>\<open>DocumentRef\<close> and \<open>WorkspaceRef\<close>: the entity itself, its uri or its id, and the two
  normalizers.\<close>

datatype DocumentRef = DocObject Document | DocUri string | DocId nat

datatype 'o WorkspaceRef = WsObject "'o Workspace" | WsUri string | WsId nat

definition normalizeDocument :: "'o Server \<Rightarrow> DocumentRef \<Rightarrow> error + Document" where
  "normalizeDocument s docRef =
     (case docRef of
        DocUri uri \<Rightarrow> (case documents_by_uri s uri of
                         None \<Rightarrow> Inl IllegalUndefinedValue | Some d \<Rightarrow> Inr d)
      | DocId i \<Rightarrow> (case documents_by_id s i of
                       None \<Rightarrow> Inl IllegalUndefinedValue | Some d \<Rightarrow> Inr d)
      | DocObject d \<Rightarrow> Inr d)"

definition normalizeWorkspace :: "'o Server \<Rightarrow> 'o WorkspaceRef \<Rightarrow> error + 'o Workspace" where
  "normalizeWorkspace s wsRef =
     (case wsRef of
        WsUri uri \<Rightarrow> (case workspaces_by_uri s uri of
                        None \<Rightarrow> Inl IllegalUndefinedValue | Some w \<Rightarrow> Inr w)
      | WsId i \<Rightarrow> (case workspaces_by_id s i of
                      None \<Rightarrow> Inl IllegalUndefinedValue | Some w \<Rightarrow> Inr w)
      | WsObject w \<Rightarrow> Inr w)"

text \<open>The body of the loop of \<open>dropDocument\<close> over the tasks of the document: the job of the
  task, if any, is cancelled and removed, then the task is removed.\<close>

definition dropTask :: "'o Server \<Rightarrow> Task \<Rightarrow> 'o Server" where
  "dropTask s task =
     (let s1 = (case Task_job s task of
                  None \<Rightarrow> s
                | Some job \<Rightarrow>
                    (let s' = cancelJob s (j_id job)
                     in s'\<lparr>jobs := filter (\<lambda>j. j_id j \<noteq> j_id job) (jobs s')\<rparr>))
      in s1\<lparr>tasks := filter (\<lambda>t. t_id t \<noteq> t_id task) (tasks s1)\<rparr>)"

definition dropDocument :: "'o Server \<Rightarrow> DocumentRef \<Rightarrow> error + 'o Server" where
  "dropDocument s docRef =
     (case normalizeDocument s docRef of
        Inl e \<Rightarrow> Inl e
      | Inr doc \<Rightarrow>
          (let s1 = fold (\<lambda>task st. dropTask st task) (Document_tasks s doc) s
           in Inr (s1\<lparr>documents := filter (\<lambda>d. d_id d \<noteq> d_id doc) (documents s1)\<rparr>)))"

text \<open>The loop of \<open>dropWorkspace\<close> over the documents of the workspace.\<close>

fun dropDocuments :: "'o Server \<Rightarrow> Document list \<Rightarrow> error + 'o Server" where
  "dropDocuments s [] = Inr s"
| "dropDocuments s (doc # docs) =
     (case dropDocument s (DocObject doc) of
        Inl e \<Rightarrow> Inl e
      | Inr s' \<Rightarrow> dropDocuments s' docs)"

definition dropWorkspace :: "'o Server \<Rightarrow> 'o WorkspaceRef \<Rightarrow> error + 'o Server" where
  "dropWorkspace s wsRef =
     (case normalizeWorkspace s wsRef of
        Inl e \<Rightarrow> Inl e
      | Inr workspace \<Rightarrow>
          (case dropDocuments s (Workspace_documents s workspace) of
             Inl e \<Rightarrow> Inl e
           | Inr s1 \<Rightarrow>
               Inr (s1\<lparr>workspaces := filter (\<lambda>w. w_id w \<noteq> w_id workspace) (workspaces s1)\<rparr>)))"

text \<open>\<open>onDidCloseTextDocument\<close>. The test inside \<open>every\<close> reads the state of \<open>doc\<close>, the
  document that is being closed, for each document \<open>idoc\<close> of the workspace.\<close>

definition onDidCloseTextDocument :: "'o Server \<Rightarrow> string \<Rightarrow> error + 'o Server" where
  "onDidCloseTextDocument s uri =
     (case documents_by_uri s uri of
        None \<Rightarrow> Inl IllegalUndefinedValue
      | Some doc \<Rightarrow>
          (case Document_workspace s doc of
             Inl e \<Rightarrow> Inl e
           | Inr ws \<Rightarrow>
               if Workspace_type ws = single_file then dropWorkspace s (WsUri uri)
               else
                 (let noRemainingDocsOpen =
                        list_all (\<lambda>idoc. d_uri idoc = uri \<or> d_state doc = indexing)
                          (Workspace_documents s ws)
                  in if noRemainingDocsOpen then dropWorkspace s (WsObject ws)
                     else store_documents_update s (doc\<lparr>d_state := indexing\<rparr>))))"

section \<open>The server and its task manager together\<close>

text \<open>What changes the jobs collection and the state of the task manager, over the whole of
  the sources: \<open>submitTask\<close> inserts a job (called by \<open>audit\<close> and \<open>getDiagnostics\<close> with the
  audit task of a stored document), the resumed \<open>processJob\<close> removes the job it completes,
  and \<open>dropDocument\<close> cancels and removes the jobs of the document's tasks (called by
  \<open>deleteFile\<close> and \<open>renameFile\<close>, and through \<open>dropWorkspace\<close> by \<open>onDidCloseTextDocument\<close> and
  \<open>onDidChangeWorkspaceFolders\<close>). \<open>cancelJob\<close> has no other caller than \<open>dropDocument\<close>.
  Every other handler (\<open>addWorkspace\<close>, \<open>onDidChangeTextDocument\<close>, \<open>onRename\<close>, the first
  branch of \<open>renameFile\<close>, ...) writes only the documents, workspaces and tasks collections;
  what it writes depends on files read from disk, so such a step is any change of these three
  collections.\<close>

datatype 'o server_action =
    SubmitTask Task
  | ResumeJob nat "Diagnostic list" nat
  | DropDocument DocumentRef
  | DropWorkspace "'o WorkspaceRef"
  | DidCloseTextDocument string
  | StoreWrite "Document list" "'o Workspace list" "Task list"

inductive server_step :: "'o server_action \<Rightarrow> 'o Server \<Rightarrow> 'o Server \<Rightarrow> bool" where
  submit_task: "tasks_by_id s (t_id t) = Some t \<Longrightarrow>
                submitTask n s (ByTask t) = Some (Inr (h, s')) \<Longrightarrow>
                server_step (SubmitTask t) s s'"
| resume_job: "job \<in> set (running s) \<Longrightarrow>
               server_step (ResumeJob (j_id job) diags now) s (processJob_resume s job diags now)"
| drop_document: "dropDocument s docRef = Inr s' \<Longrightarrow> server_step (DropDocument docRef) s s'"
| drop_workspace: "dropWorkspace s wsRef = Inr s' \<Longrightarrow> server_step (DropWorkspace wsRef) s s'"
| did_close: "onDidCloseTextDocument s uri = Inr s' \<Longrightarrow>
              server_step (DidCloseTextDocument uri) s s'"
| store_write: "server_step (StoreWrite ds ws ts) s
                  (s\<lparr>documents := ds, workspaces := ws, tasks := ts\<rparr>)"

inductive server_run :: "'o server_action list \<Rightarrow> 'o Server \<Rightarrow> 'o Server \<Rightarrow> bool" where
  at_start: "server_run [] s s"
| and_then: "server_run acts s s' \<Longrightarrow> server_step a s' s'' \<Longrightarrow> server_run (acts @ [a]) s s''"

text \<open>What holds of the jobs between two calls: the queue is empty; every id that is
  cancelled, fulfilled, running or stored has been given out by the counter; a stored job is
  neither cancelled nor fulfilled; no two stored jobs share a task; no popped id was ever
  found cancelled.\<close>

definition jobs_inv :: "'o Server \<Rightarrow> bool" where
  "jobs_inv s =
     (priorityQueue s = [] \<and>
      (\<forall>i \<in> cancelled s. i \<le> jobIdCounter s) \<and>
      (\<forall>i \<in> set (fulfilled s). i \<le> jobIdCounter s) \<and>
      (\<forall>j \<in> set (running s). j_id j \<le> jobIdCounter s) \<and>
      (\<forall>j \<in> set (jobs s). j_id j \<le> jobIdCounter s \<and> j_id j \<notin> cancelled s \<and>
                             j_id j \<notin> set (fulfilled s)) \<and>
      distinct (map j_taskId (jobs s)) \<and>
      (\<forall>i. Dropped i \<notin> set (events s)))"

subsection \<open>A run on the small store\<close>

text \<open>The small store after the submission of task 2 (which submits task 1 first), then
  after the run of job 1 has completed at time 7 with no diagnostics, then after \<open>b.rst\<close> has
  been closed (which drops the workspace).\<close>

definition server_both :: "unit Server" where
  "server_both =
     server0\<lparr>jobs := [\<lparr>j_id = 1, j_taskId = 1\<rparr>, \<lparr>j_id = 2, j_taskId = 2\<rparr>], jobIdCounter := 2,
             running := [\<lparr>j_id = 1, j_taskId = 1\<rparr>, \<lparr>j_id = 2, j_taskId = 2\<rparr>],
             events := [ExecuteTask 1 1, ExecuteTask 2 2]\<rparr>"

definition server_one_done :: "unit Server" where
  "server_one_done =
     server_both\<lparr>documents := [docA\<lparr>d_diagnostics := Some []\<rparr>, docB],
                 tasks := [taskA\<lparr>t_lastCompleted := Some 7\<rparr>, taskB],
                 jobs := [\<lparr>j_id = 2, j_taskId = 2\<rparr>],
                 running := [\<lparr>j_id = 2, j_taskId = 2\<rparr>],
                 fulfilled := [1],
                 events := [ExecuteTask 1 1, ExecuteTask 2 2, Completed 1 1 7]\<rparr>"

definition server_closed :: "unit Server" where
  "server_closed =
     server_one_done\<lparr>documents := [], workspaces := [], tasks := [], jobs := [],
                     cancelled := {2}\<rparr>"

section \<open>Memoized facts and tables (util.ts \<open>memoize\<close>, types/document.ts, types/workspace.ts)\<close>

text \<open>Sources: \<open>memoize\<close> and \<open>getCapture\<close> are in the second file of \<open>src/src/annotater.ts\<close>;
  the getters are in \<open>src/src/types/document.ts\<close> and \<open>src/src/types/workspace.ts\<close>; the
  handlers are in \<open>src/unnamed/part_007\<close>.\<close>

text \<open>\<open>memoizer\<close>: a getter wrapped by \<open>@memoize\<close> looks its own name up in the cache of its
  object; only when the name is absent is the value computed and stored.\<close>

definition memoizer :: "(string \<times> 'v) list \<Rightarrow> string \<Rightarrow> 'v \<Rightarrow> 'v \<times> (string \<times> 'v) list" where
  "memoizer cache name computed =
     (case map_of cache name of
        None \<Rightarrow> (computed, cache @ [(name, computed)])
      | Some v \<Rightarrow> (v, cache))"

text \<open>\<open>getCapture\<close>: the text of the first capture with the given name.\<close>

definition getCapture :: "QueryMatch \<Rightarrow> string \<Rightarrow> bool \<Rightarrow> error + string option" where
  "getCapture m key allowUndefined =
     (case map_of m key of
        None \<Rightarrow> if allowUndefined then Inr None else Inl (RequiredCaptureMissing key)
      | Some t \<Rightarrow> Inr (Some t))"

text \<open>The parser and its queries are an external dependency. They enter as a parameter \<open>Q\<close>:
  \<open>Q name txt\<close> is the list of matches of the query \<open>name\<close> on the tree parsed from \<open>txt\<close>.\<close>

type_synonym queries = "string \<Rightarrow> string \<Rightarrow> QueryMatch list"

definition wrap :: "string \<Rightarrow> QueryMatch list \<Rightarrow> Fact list" where
  "wrap uri ms = map (\<lambda>m. \<lparr>f_uri = uri, f_match = m\<rparr>) ms"

subsection \<open>The document (types/document.ts)\<close>

definition Document_clearCache :: "Document \<Rightarrow> Document" where
  "Document_clearCache d = d\<lparr>d_cache := []\<rparr>"

text \<open>\<open>Document.update\<close>: the text document is updated, then the cache is cleared. An
  exception of the text document leaves before the cache is cleared.\<close>

definition Document_update ::
    "Document \<Rightarrow> int \<Rightarrow> TextDocumentContentChangeEvent list \<Rightarrow>
     (update_error \<times> Document) + Document" where
  "Document_update d v changes =
     (case update (tsDoc d) changes v of
        Inl (e, ts) \<Rightarrow> Inl (e, d\<lparr>tsDoc := ts\<rparr>)
      | Inr ts \<Rightarrow> Inr (Document_clearCache (d\<lparr>tsDoc := ts\<rparr>)))"

definition Document_reparse :: "Document \<Rightarrow> Document" where
  "Document_reparse d = d\<lparr>tsDoc := reparse (tsDoc d)\<rparr>"

definition Document_referenceListings :: "queries \<Rightarrow> Document \<Rightarrow> Fact list \<times> Document" where
  "Document_referenceListings Q d =
     (let (v, c) = memoizer (d_cache d) ''referenceListings''
                     (wrap (d_uri d) (Q ''referenceListings'' (tree_text (tsDoc d))))
      in (v, d\<lparr>d_cache := c\<rparr>))"

definition Document_sections :: "queries \<Rightarrow> Document \<Rightarrow> Fact list \<times> Document" where
  "Document_sections Q d =
     (let txt = tree_text (tsDoc d);
          (v, c) = memoizer (d_cache d) ''sections''
                     (wrap (d_uri d)
                        (Q ''section1s'' txt @ Q ''section2s'' txt @ Q ''section3s'' txt @
                         Q ''section4s'' txt @ Q ''section5s'' txt))
      in (v, d\<lparr>d_cache := c\<rparr>))"

subsection \<open>The workspace (types/workspace.ts)\<close>

definition Workspace_clearCache :: "'o Workspace \<Rightarrow> 'o Workspace" where
  "Workspace_clearCache w = w\<lparr>w_cache := []\<rparr>"

text \<open>\<open>Map.set\<close>: an existing key keeps its place and gets the new value, a new key goes to
  the end.\<close>

definition table_set :: "(string \<times> Fact) list \<Rightarrow> string \<Rightarrow> Fact \<Rightarrow> (string \<times> Fact) list" where
  "table_set table k v =
     (if k \<in> fst ` set table
      then map (\<lambda>(k', v'). if k' = k then (k, v) else (k', v')) table
      else table @ [(k, v)])"

text \<open>The keys under which the three tables file a fact. \<open>ref.key\<close> is a required capture;
  the two citekey tables skip a fact whose citekey is missing or empty
  (\<open>if (ref.citekey)\<close>).\<close>

definition Reference_key :: "Fact \<Rightarrow> error + string option" where
  "Reference_key f = getCapture (f_match f) ''key'' False"

definition citekey_if_truthy :: "Fact \<Rightarrow> error + string option" where
  "citekey_if_truthy f =
     (case getCapture (f_match f) ''citekey'' True of
        Inl e \<Rightarrow> Inl e
      | Inr None \<Rightarrow> Inr None
      | Inr (Some k) \<Rightarrow> if k = [] then Inr None else Inr (Some k))"

text \<open>The inner loop \<open>doc.referenceListings.forEach(ref => table.set(...))\<close> and the outer loop
  \<open>this.documents.forEach\<close>. Reading the facts of a document fills the cache of that document
  in the store. An exception carries the state reached so far.\<close>

fun set_all ::
    "(Fact \<Rightarrow> error + string option) \<Rightarrow> Fact list \<Rightarrow> (string \<times> Fact) list \<Rightarrow>
     error + (string \<times> Fact) list" where
  "set_all keyOf [] table = Inr table"
| "set_all keyOf (f # fs) table =
     (case keyOf f of
        Inl e \<Rightarrow> Inl e
      | Inr None \<Rightarrow> set_all keyOf fs table
      | Inr (Some k) \<Rightarrow> set_all keyOf fs (table_set table k f))"

fun fill_table ::
    "(Document \<Rightarrow> Fact list \<times> Document) \<Rightarrow> (Fact \<Rightarrow> error + string option) \<Rightarrow>
     'o Server \<Rightarrow> Document list \<Rightarrow> (string \<times> Fact) list \<Rightarrow>
     (error \<times> 'o Server) + ((string \<times> Fact) list \<times> 'o Server)" where
  "fill_table getter keyOf s [] table = Inr (table, s)"
| "fill_table getter keyOf s (doc # docs) table =
     (let (facts, doc') = getter doc;
          s' = s\<lparr>documents := map (\<lambda>d. if d_id d = d_id doc then doc' else d) (documents s)\<rparr>
      in case set_all keyOf facts table of
           Inl e \<Rightarrow> Inl (e, s')
         | Inr table' \<Rightarrow> fill_table getter keyOf s' docs table')"

text \<open>A memoized table of a workspace: the shape of \<open>referencesByKey\<close>, \<open>referencesByCitekey\<close>
  and \<open>sectionsByCitekey\<close> under \<open>@memoize\<close>.\<close>

definition Workspace_table ::
    "string \<Rightarrow> (Document \<Rightarrow> Fact list \<times> Document) \<Rightarrow> (Fact \<Rightarrow> error + string option) \<Rightarrow>
     'o Server \<Rightarrow> 'o Workspace \<Rightarrow>
     (error \<times> 'o Server) + ('o ws_value \<times> 'o Server)" where
  "Workspace_table name getter keyOf s ws =
     (case map_of (w_cache ws) name of
        Some v \<Rightarrow> Inr (v, s)
      | None \<Rightarrow>
          (case fill_table getter keyOf s (Workspace_documents s ws) [] of
             Inl e \<Rightarrow> Inl e
           | Inr (table, s') \<Rightarrow>
               Inr (Table table,
                    s'\<lparr>workspaces :=
                         map (\<lambda>w. if w_id w = w_id ws
                                   then w\<lparr>w_cache := w_cache w @ [(name, Table table)]\<rparr> else w)
                             (workspaces s')\<rparr>)))"

definition Workspace_referencesByKey ::
    "queries \<Rightarrow> 'o Server \<Rightarrow> 'o Workspace \<Rightarrow> (error \<times> 'o Server) + ('o ws_value \<times> 'o Server)" where
  "Workspace_referencesByKey Q =
     Workspace_table ''referencesByKey'' (Document_referenceListings Q) Reference_key"

definition Workspace_referencesByCitekey ::
    "queries \<Rightarrow> 'o Server \<Rightarrow> 'o Workspace \<Rightarrow> (error \<times> 'o Server) + ('o ws_value \<times> 'o Server)" where
  "Workspace_referencesByCitekey Q =
     Workspace_table ''referencesByCitekey'' (Document_referenceListings Q) citekey_if_truthy"

definition Workspace_sectionsByCitekey ::
    "queries \<Rightarrow> 'o Server \<Rightarrow> 'o Workspace \<Rightarrow> (error \<times> 'o Server) + ('o ws_value \<times> 'o Server)" where
  "Workspace_sectionsByCitekey Q =
     Workspace_table ''sectionsByCitekey'' (Document_sections Q) citekey_if_truthy"

text \<open>The memoized outline. Its builder (\<open>SectionTreeBuilder\<close>) walks syntax trees and expands
  include patterns against the file system; it is the parameter \<open>B\<close>, which may fail.\<close>

definition Workspace_sectionTree ::
    "('o Server \<Rightarrow> 'o Workspace \<Rightarrow> error + 'o) \<Rightarrow> 'o Server \<Rightarrow> 'o Workspace \<Rightarrow>
     (error \<times> 'o Server) + ('o ws_value \<times> 'o Server)" where
  "Workspace_sectionTree B s ws =
     (case map_of (w_cache ws) ''sectionTree'' of
        Some v \<Rightarrow> Inr (v, s)
      | None \<Rightarrow>
          (case B s ws of
             Inl e \<Rightarrow> Inl (e, s)
           | Inr t \<Rightarrow>
               Inr (Outline t,
                    s\<lparr>workspaces :=
                        map (\<lambda>w. if w_id w = w_id ws
                                  then w\<lparr>w_cache := w_cache w @ [(''sectionTree'', Outline t)]\<rparr>
                                  else w)
                            (workspaces s)\<rparr>)))"

subsection \<open>The handlers that read and edit (server.ts)\<close>

text \<open>\<open>getReferences\<close> with scope \<open>workspace\<close>, for a workspace that is in the store: the keys
  of the table \<open>referencesByKey\<close> with their types.\<close>

definition convertReference :: "Fact \<Rightarrow> error + string \<times> ReferenceType" where
  "convertReference f =
     (case Reference_key f of
        Inl e \<Rightarrow> Inl e
      | Inr None \<Rightarrow> Inl (RequiredCaptureMissing ''key'')
      | Inr (Some k) \<Rightarrow> Inr (k, Reference_type k))"

fun convertReferences :: "Fact list \<Rightarrow> error + (string \<times> ReferenceType) list" where
  "convertReferences [] = Inr []"
| "convertReferences (f # fs) =
     (case convertReference f of
        Inl e \<Rightarrow> Inl e
      | Inr r \<Rightarrow> (case convertReferences fs of Inl e \<Rightarrow> Inl e | Inr rs \<Rightarrow> Inr (r # rs)))"

definition getReferences_workspace ::
    "queries \<Rightarrow> 'o Server \<Rightarrow> string \<Rightarrow>
     (error \<times> 'o Server) + ((string \<times> ReferenceType) list \<times> 'o Server)" where
  "getReferences_workspace Q s wsUri =
     (case workspaces_by_uri s wsUri of
        None \<Rightarrow> Inl (IllegalUndefinedValue, s)
      | Some ws \<Rightarrow>
          (case Workspace_referencesByKey Q s ws of
             Inl e \<Rightarrow> Inl e
           | Inr (Outline t, s') \<Rightarrow> Inl (IllegalUndefinedValue, s')
           | Inr (Table table, s') \<Rightarrow>
               (case convertReferences (map snd table) of
                  Inl e \<Rightarrow> Inl (e, s')
                | Inr refs \<Rightarrow> Inr (refs, s'))))"

text \<open>\<open>onDidChangeTextDocument\<close>: the document is updated, the store is told, and the cache
  of the document's workspace is cleared. The debounced audit that follows runs on a timer
  and is not part of this function.\<close>

definition onDidChangeTextDocument ::
    "'o Server \<Rightarrow> string \<Rightarrow> int option \<Rightarrow> TextDocumentContentChangeEvent list \<Rightarrow>
     (error \<times> 'o Server) + 'o Server" where
  "onDidChangeTextDocument s uri v contentChanges =
     (case v of
        None \<Rightarrow> Inl (MissingVersion, s)
      | Some ver \<Rightarrow>
          (case documents_by_uri s uri of
             None \<Rightarrow> Inl (IllegalUndefinedValue, s)
           | Some doc \<Rightarrow>
               (case Document_update doc ver contentChanges of
                  Inl (e, doc') \<Rightarrow>
                    Inl (UpdateFailed e,
                         s\<lparr>documents := map (\<lambda>d. if d_id d = d_id doc then doc' else d)
                                            (documents s)\<rparr>)
                | Inr doc' \<Rightarrow>
                    (let s1 = s\<lparr>documents := map (\<lambda>d. if d_id d = d_id doc then doc' else d)
                                                  (documents s)\<rparr>
                     in case Document_workspace s1 doc' of
                          Inl e \<Rightarrow> Inl (e, s1)
                        | Inr ws \<Rightarrow>
                            Inr (s1\<lparr>workspaces :=
                                      map (\<lambda>w. if w_id w = w_id ws
                                                then Workspace_clearCache w else w)
                                          (workspaces s1)\<rparr>)))))"

text \<open>One round of the loop of \<open>onRename\<close> over the target documents, given the content
  changes computed for the document \<open>iuri\<close> (finding the symbol and its instances is the
  parser's work). For a document in state \<open>editing\<close> the edits go back to the editor and
  nothing changes here; a document in state \<open>indexing\<close> is updated in place with the next
  version and written to disk.\<close>

definition onRename_target ::
    "'o Server \<Rightarrow> string \<Rightarrow> TextDocumentContentChangeEvent list \<Rightarrow>
     (error \<times> 'o Server) + 'o Server" where
  "onRename_target s iuri contentChanges =
     (case documents_by_uri s iuri of
        None \<Rightarrow> Inl (IllegalUndefinedValue, s)
      | Some idoc \<Rightarrow>
          if d_state idoc = editing then Inr s
          else
            (case Document_update idoc (version (tsDoc idoc) + 1) contentChanges of
               Inl (e, idoc') \<Rightarrow>
                 Inl (UpdateFailed e,
                      s\<lparr>documents := map (\<lambda>d. if d_id d = d_id idoc then idoc' else d)
                                         (documents s)\<rparr>)
             | Inr idoc' \<Rightarrow>
                 Inr (s\<lparr>documents := map (\<lambda>d. if d_id d = d_id idoc then idoc' else d)
                                          (documents s)\<rparr>)))"

subsection \<open>A stand-in for the parser\<close>

text \<open>For the examples: the query \<open>referenceListings\<close> reports one listing whose key is the
  whole text; the other queries report nothing.\<close>

definition whole_text_query :: queries where
  "whole_text_query name txt =
     (if name = ''referenceListings'' then [[(''key'', txt)]] else [])"

text \<open>The small store with texts that classify as keys: \<open>a.rst\<close> holds \<open>/a.png\<close>, \<open>b.rst\<close> holds
  \<open>/b.png\<close>.\<close>

definition server_keys :: "unit Server" where
  "server_keys =
     fresh [docA\<lparr>tsDoc := create 0 ''/a.png''\<rparr>, docB\<lparr>tsDoc := create 0 ''/b.png''\<rparr>]
           [wsW] [taskA, taskB]"

text \<open>The edit of a rename in \<open>b.rst\<close>: the characters 1 to 2 of line 0 become \<open>c\<close>.\<close>

definition rename_b_to_c :: "TextDocumentContentChangeEvent list" where
  "rename_b_to_c =
     [\<lparr>c_range = Some \<lparr>r_start = \<lparr>line = 0, character = 1\<rparr>,
                        r_end = \<lparr>line = 0, character = 2\<rparr>\<rparr>,
       c_rangeLength = None, c_text = ''c''\<rparr>]"

section \<open>Properties of the key classification\<close>

lemma take_eq_prefix: "length xs = n \<Longrightarrow> prefix xs ys \<longleftrightarrow> take n ys = xs"
  by (metis append_take_drop_id prefix_def append_eq_conv_conj)

lemma test_http_iff: "test_http key \<longleftrightarrow> prefix ''http://'' key \<or> prefix ''https://'' key"
proof -
  have a: "prefix ''http://'' key \<longleftrightarrow> take 4 key = ''http'' \<and> take 3 (drop 4 key) = ''://''"
  proof -
    have "prefix ''http://'' key \<longleftrightarrow> take 7 key = ''http://''"
      by (rule take_eq_prefix) simp
    also have "take 7 key = take 4 key @ take 3 (drop 4 key)"
      using take_add[of 4 3 key] by simp
    also have "take 4 key @ take 3 (drop 4 key) = ''http://'' \<longleftrightarrow>
               take 4 key = ''http'' \<and> take 3 (drop 4 key) = ''://''"
      by (cases "length (take 4 key) = 4") (auto simp: append_eq_conv_conj min_def split: if_splits)
    finally show ?thesis .
  qed
  have b: "prefix ''https://'' key \<longleftrightarrow>
           take 4 key = ''http'' \<and> take 1 (drop 4 key) = ''s'' \<and> take 3 (drop 1 (drop 4 key)) = ''://''"
  proof -
    have "prefix ''https://'' key \<longleftrightarrow> take 8 key = ''https://''"
      by (rule take_eq_prefix) simp
    also have "take 8 key = take 4 key @ take 1 (drop 4 key) @ take 3 (drop 5 key)"
      using take_add[of 4 4 key] take_add[of 1 3 "drop 4 key"] by simp
    also have "take 4 key @ take 1 (drop 4 key) @ take 3 (drop 5 key) = ''https://'' \<longleftrightarrow>
               take 4 key = ''http'' \<and> take 1 (drop 4 key) = ''s'' \<and> take 3 (drop 5 key) = ''://''"
      by (cases "length (take 4 key) = 4"; cases "length (take 1 (drop 4 key)) = 1")
         (auto simp: append_eq_conv_conj min_def split: if_splits)
    finally show ?thesis by simp
  qed
  show ?thesis unfolding a b test_http_def Let_def by auto
qed

lemma not_dot_space_dot [simp]: "\<not> not_dot_space CHR ''.''"
  by (simp add: not_dot_space_def)

lemma test_record_iff:
  "test_record key \<longleftrightarrow>
   (\<exists>a b c rest. key = a @ ''.'' @ b @ ''.'' @ c @ rest \<and> a \<noteq> [] \<and> b \<noteq> [] \<and>
      list_all not_dot_space a \<and> list_all not_dot_space b \<and>
      length c = 8 \<and> list_all lower_az c)"
  (is "?L \<longleftrightarrow> ?R")
proof
  assume l: ?L
  define a where "a = takeWhile not_dot_space key"
  define r1 where "r1 = dropWhile not_dot_space key"
  define b where "b = takeWhile not_dot_space (drop 1 r1)"
  define r2 where "r2 = dropWhile not_dot_space (drop 1 r1)"
  define c where "c = take 8 (drop 1 r2)"
  from l have f: "a \<noteq> []" "take 1 r1 = ''.''" "b \<noteq> []" "take 1 r2 = ''.''"
    "length c = 8" "list_all lower_az c"
    by (simp_all add: test_record_def Let_def a_def r1_def b_def r2_def c_def)
  have k: "key = a @ r1" by (simp add: a_def r1_def)
  have r1: "r1 = ''.'' @ drop 1 r1" using f(2) by (metis append_take_drop_id)
  have d1: "drop 1 r1 = b @ r2" by (simp add: b_def r2_def)
  have r2: "r2 = ''.'' @ drop 1 r2" using f(4) by (metis append_take_drop_id)
  have d2: "drop 1 r2 = c @ drop 8 (drop 1 r2)" unfolding c_def by (rule append_take_drop_id[symmetric])
  have "key = a @ ''.'' @ b @ ''.'' @ c @ drop 8 (drop 1 r2)"
    using k r1 d1 r2 d2 by metis
  moreover have "list_all not_dot_space a" "list_all not_dot_space b"
    by (auto simp: a_def b_def list_all_iff dest: set_takeWhileD)
  ultimately show ?R using f by blast
next
  assume ?R
  then obtain a b c rest where k: "key = a @ ''.'' @ b @ ''.'' @ c @ rest"
    and f: "a \<noteq> []" "b \<noteq> []" "list_all not_dot_space a" "list_all not_dot_space b"
      "length c = 8" "list_all lower_az c"
    by blast
  have ta: "takeWhile not_dot_space key = a"
    unfolding k using f(3) by (simp add: takeWhile_tail list_all_iff)
  have da: "dropWhile not_dot_space key = ''.'' @ b @ ''.'' @ c @ rest"
    unfolding k using f(3) by (simp add: dropWhile_append2 list_all_iff)
  have tb: "takeWhile not_dot_space (b @ CHR ''.'' # c @ rest) = b"
    using f(4) by (simp add: takeWhile_tail list_all_iff)
  have db: "dropWhile not_dot_space (b @ CHR ''.'' # c @ rest) = CHR ''.'' # c @ rest"
    using f(4) by (simp add: dropWhile_append2 list_all_iff)
  show ?L
    unfolding test_record_def Let_def ta da using f
    by (simp add: tb db)
qed


text \<open>Claim C5, as amended. The classification applies these rules in order: a space
  character (code 32) anywhere in the key gives \<open>unknown\<close>; else the prefix \<open>mail:\<close> gives
  \<open>mail\<close>; else the prefix \<open>/\<close> gives \<open>media\<close>; else the prefix \<open>http://\<close> or \<open>https://\<close>
  gives \<open>web\<close>; else a key that starts with a non-empty run of characters other than dot and
  space, a dot, a second such run, a dot, and then eight lower-case letters \<open>a\<close> to \<open>z\<close> gives
  \<open>record\<close>; anything else gives \<open>unknown\<close>. The five example keys classify as stated.\<close>

theorem Reference_type_rules:
  "Reference_type key =
     (if CHR '' '' \<in> set key then Unknown
      else if prefix ''mail:'' key then Mail
      else if prefix ''/'' key then Media
      else if prefix ''http://'' key \<or> prefix ''https://'' key then Web
      else if (\<exists>a b c rest. key = a @ ''.'' @ b @ ''.'' @ c @ rest \<and> a \<noteq> [] \<and> b \<noteq> [] \<and>
                 list_all not_dot_space a \<and> list_all not_dot_space b \<and>
                 length c = 8 \<and> list_all lower_az c) then Record
      else Unknown)
   \<and> Reference_type ''mail:alice@x.com'' = Mail
   \<and> Reference_type ''/img/a.png'' = Media
   \<and> Reference_type ''https://x.com'' = Web
   \<and> Reference_type ''a.b.abcdefgh'' = Record
   \<and> Reference_type ''has space'' = Unknown"
proof -
  have m: "prefix ''mail:'' key \<longleftrightarrow> take 5 key = ''mail:''"
    by (rule take_eq_prefix) simp
  have s: "prefix ''/'' key \<longleftrightarrow> take 1 key = ''/''"
    by (rule take_eq_prefix) simp
  have ex: "Reference_type ''mail:alice@x.com'' = Mail"
      "Reference_type ''/img/a.png'' = Media"
      "Reference_type ''https://x.com'' = Web"
      "Reference_type ''a.b.abcdefgh'' = Record"
      "Reference_type ''has space'' = Unknown"
    by (simp_all add: Reference_type_def includes_space_def test_http_def test_record_def
        not_dot_space_def lower_az_def)
  show ?thesis
    unfolding m s test_http_iff[symmetric] test_record_iff[symmetric]
    using ex by (simp add: Reference_type_def includes_space_def)
qed

theorem Reference_type_rules_witness:
  "Reference_type ''a.bc.abcdefghXY'' = Record"
proof -
  have "''a.bc.abcdefghXY'' = ''a'' @ ''.'' @ ''bc'' @ ''.'' @ ''abcdefgh'' @ ''XY'' \<and>
        ''a'' \<noteq> [] \<and> ''bc'' \<noteq> [] \<and> list_all not_dot_space ''a'' \<and> list_all not_dot_space ''bc'' \<and>
        length ''abcdefgh'' = 8 \<and> list_all lower_az ''abcdefgh''"
    by (simp add: not_dot_space_def lower_az_def)
  then have "\<exists>a b c rest. ''a.bc.abcdefghXY'' = a @ ''.'' @ b @ ''.'' @ c @ rest \<and> a \<noteq> [] \<and> b \<noteq> [] \<and>
                 list_all not_dot_space a \<and> list_all not_dot_space b \<and>
                 length c = 8 \<and> list_all lower_az c"
    by blast
  with Reference_type_rules[of "''a.bc.abcdefghXY''"] show ?thesis
    by (simp add: prefix_def)
qed

text \<open>Claim C5 as stated fails: a key with a tab (whitespace, but not a space) is
  classified \<open>mail\<close>; a key whose third dot-separated segment has nine characters is
  classified \<open>record\<close>; a key whose third segment is the eight characters \<open>ABCDEFGH\<close> is
  classified \<open>unknown\<close>.\<close>

theorem Reference_type_counterexample:
  "spec_whitespace (CHR 0x09)
   \<and> CHR 0x09 \<in> set (''mail:'' @ [CHR 0x09] @ ''x'')
   \<and> Reference_type (''mail:'' @ [CHR 0x09] @ ''x'') = Mail
   \<and> length (split_dot ''a.b.abcdefghi'' ! 2) = 9
   \<and> Reference_type ''a.b.abcdefghi'' = Record
   \<and> length (split_dot ''a.b.ABCDEFGH'' ! 2) = 8
   \<and> Reference_type ''a.b.ABCDEFGH'' = Unknown"
  by (simp add: Reference_type_def includes_space_def test_http_def test_record_def
        not_dot_space_def lower_az_def spec_whitespace_def)

section \<open>Properties of the line-offset table\<close>

lemma CR_neq_LF [simp]: "CarriageReturn \<noteq> LineFeed" "LineFeed \<noteq> CarriageReturn"
  by (simp_all add: CarriageReturn_def LineFeed_def)

lemma lineStarts_Cons:
  "lineStarts (c # cs) b =
     (if c = CarriageReturn \<and> cs \<noteq> [] \<and> hd cs = LineFeed
      then (b + 2) # lineStarts (tl cs) (b + 2)
      else if c = CarriageReturn \<or> c = LineFeed then (b + 1) # lineStarts cs (b + 1)
      else lineStarts cs (b + 1))"
  by (cases cs) auto

lemma loop_lineStarts:
  "i \<le> length str \<Longrightarrow>
   computeLineOffsets_loop str off i res = res @ lineStarts (drop i str) (off + int i)"
proof (induction str off i res rule: computeLineOffsets_loop.induct)
  case (1 str off i res)
  show ?case
  proof (cases "i < length str")
    case False
    with 1(3) show ?thesis by (subst computeLineOffsets_loop.simps) simp
  next
    case lt: True
    have dr: "drop i str = str ! i # drop (Suc i) str"
      using lt by (simp add: Cons_nth_drop_Suc)
    have hd_next: "drop (Suc i) str \<noteq> [] \<longleftrightarrow> i + 1 < length str"
      by auto
    have hd_eq: "i + 1 < length str \<Longrightarrow> hd (drop (Suc i) str) = str ! (i + 1)"
      by (simp add: hd_drop_conv_nth)
    have tl_eq: "tl (drop (Suc i) str) = drop (Suc (Suc i)) str"
      by (simp add: drop_Suc tl_drop)
    show ?thesis
    proof (cases "str ! i = CarriageReturn \<or> str ! i = LineFeed")
      case False
      with 1(2)[OF lt refl False] lt show ?thesis
        by (subst computeLineOffsets_loop.simps) (simp add: dr lineStarts_Cons ac_simps)
    next
      case trm: True
      show ?thesis
      proof (cases "str ! i = CarriageReturn \<and> i + 1 < length str \<and> str ! (i + 1) = LineFeed")
        case pair: True
        have "computeLineOffsets_loop str off (i + 1 + 1) (res @ [off + int (i + 1) + 1]) =
              (res @ [off + int (i + 1) + 1]) @ lineStarts (drop (i + 1 + 1) str) (off + int (i + 1 + 1))"
          using 1(1)[OF lt refl trm refl] pair by simp
        moreover have "lineStarts (drop i str) (off + int i) =
              (off + int i + 2) # lineStarts (drop (Suc (Suc i)) str) (off + int i + 2)"
          using pair hd_eq by (simp add: dr lineStarts_Cons tl_eq)
        ultimately show ?thesis using lt pair
          by (subst computeLineOffsets_loop.simps) (simp add: ac_simps)
      next
        case lone: False
        have ifeq: "(if str ! i = CarriageReturn \<and> i + 1 < length str \<and> str ! (i + 1) = LineFeed
                     then i + 1 else i) = i"
          using lone by (simp only: if_False)
        have "computeLineOffsets_loop str off (i + 1) (res @ [off + int i + 1]) =
              (res @ [off + int i + 1]) @ lineStarts (drop (i + 1) str) (off + int (i + 1))"
          using 1(1)[OF lt refl trm refl] lt unfolding ifeq by simp
        moreover have "lineStarts (drop i str) (off + int i) =
              (off + int i + 1) # lineStarts (drop (Suc i) str) (off + int i + 1)"
          using lone trm hd_eq by (auto simp add: dr lineStarts_Cons)
        ultimately show ?thesis using lt lone trm
          by (subst computeLineOffsets_loop.simps) (auto simp add: ac_simps)
      qed
    qed
  qed
qed

lemma computeLineOffsets_lineStarts:
  "computeLineOffsets str True off = off # lineStarts str off"
  "computeLineOffsets str False off = lineStarts str off"
  by (simp_all add: computeLineOffsets_def loop_lineStarts)

lemma lineStarts_bounds:
  "v \<in> set (lineStarts s b) \<Longrightarrow> b < v \<and> v \<le> b + int (length s)"
proof (induction s b arbitrary: v rule: lineStarts.induct)
  case (1 b)
  then show ?case by simp
next
  case (2 c b)
  then show ?case by (simp split: if_splits)
next
  case (3 c d ds b)
  show ?case
  proof (cases "c = CarriageReturn \<and> d = LineFeed")
    case True
    with 3(4) have "v = b + 2 \<or> v \<in> set (lineStarts ds (b + 2))" by auto
    with 3(1)[OF True] show ?thesis by force
  next
    case False
    with 3(4) have "v = b + 1 \<or> v \<in> set (lineStarts (d # ds) (b + 1))"
      by (auto split: if_splits)
    moreover have "v \<in> set (lineStarts (d # ds) (b + 1)) \<Longrightarrow>
                   b + 1 < v \<and> v \<le> b + 1 + int (length (d # ds))"
      using 3(2)[OF False] 3(3)[OF False] by blast
    ultimately show ?thesis by force
  qed
qed

lemma lineStarts_sorted: "sorted_wrt (<) (lineStarts s b)"
proof (induction s b rule: lineStarts.induct)
  case (1 b)
  show ?case by simp
next
  case (2 c b)
  show ?case by simp
next
  case (3 c d ds b)
  show ?case
  proof (cases "c = CarriageReturn \<and> d = LineFeed")
    case True
    with 3(1)[OF True] show ?thesis by (auto dest: lineStarts_bounds)
  next
    case False
    have "sorted_wrt (<) (lineStarts (d # ds) (b + 1))"
      using 3(2)[OF False] 3(3)[OF False] by blast
    with False show ?thesis by (auto dest: lineStarts_bounds)
  qed
qed

lemma lineStarts_append_CRLF:
  "lineStarts (a @ CarriageReturn # LineFeed # r) b =
   lineStarts a b @ (b + int (length a) + 2) # lineStarts r (b + int (length a) + 2)"
proof (induction a b rule: lineStarts.induct)
  case (1 b)
  show ?case by simp
next
  case (2 c b)
  show ?case by simp
next
  case (3 c d ds b)
  show ?case
  proof (cases "c = CarriageReturn \<and> d = LineFeed")
    case True
    with 3(1)[OF True] show ?thesis by (simp add: ac_simps)
  next
    case False
    have "lineStarts ((d # ds) @ CarriageReturn # LineFeed # r) (b + 1) =
          lineStarts (d # ds) (b + 1) @ (b + 1 + int (length (d # ds)) + 2) #
          lineStarts r (b + 1 + int (length (d # ds)) + 2)"
      using 3(2)[OF False] 3(3)[OF False] by blast
    with False show ?thesis by (simp add: ac_simps)
  qed
qed

lemma lineStarts_append_LF:
  "a = [] \<or> last a \<noteq> CarriageReturn \<Longrightarrow>
   lineStarts (a @ LineFeed # r) b =
   lineStarts a b @ (b + int (length a) + 1) # lineStarts r (b + int (length a) + 1)"
proof (induction a b rule: lineStarts.induct)
  case (1 b)
  show ?case by (cases r) simp_all
next
  case (2 c b)
  then show ?case by (cases r) simp_all
next
  case (3 c d ds b)
  show ?case
  proof (cases "c = CarriageReturn \<and> d = LineFeed")
    case True
    have "ds = [] \<or> last ds \<noteq> CarriageReturn" using 3(4) True by (auto split: if_splits)
    with 3(1)[OF True] True show ?thesis by (simp add: ac_simps)
  next
    case False
    have l: "d # ds = [] \<or> last (d # ds) \<noteq> CarriageReturn" using 3(4) by simp
    have "lineStarts ((d # ds) @ LineFeed # r) (b + 1) =
          lineStarts (d # ds) (b + 1) @ (b + 1 + int (length (d # ds)) + 1) #
          lineStarts r (b + 1 + int (length (d # ds)) + 1)"
      using 3(2)[OF False _ l] 3(3)[OF False _ l] by blast
    with False show ?thesis by (simp add: ac_simps)
  qed
qed

lemma lineStarts_append_CR:
  "r = [] \<or> hd r \<noteq> LineFeed \<Longrightarrow>
   lineStarts (a @ CarriageReturn # r) b =
   lineStarts a b @ (b + int (length a) + 1) # lineStarts r (b + int (length a) + 1)"
proof (induction a b rule: lineStarts.induct)
  case (1 b)
  then show ?case by (cases r) auto
next
  case (2 c b)
  then show ?case by (cases r) (auto simp: ac_simps)
next
  case (3 c d ds b)
  show ?case
  proof (cases "c = CarriageReturn \<and> d = LineFeed")
    case True
    with 3(1)[OF True 3(4)] True show ?thesis by (simp add: ac_simps)
  next
    case False
    have "lineStarts ((d # ds) @ CarriageReturn # r) (b + 1) =
          lineStarts (d # ds) (b + 1) @ (b + 1 + int (length (d # ds)) + 1) #
          lineStarts r (b + 1 + int (length (d # ds)) + 1)"
      using 3(2)[OF False _ 3(4)] 3(3)[OF False _ 3(4)] by blast
    with False show ?thesis by (simp add: ac_simps)
  qed
qed

subsection \<open>Binary search and the round trip\<close>

lemma positionAt_loop_spec:
  "t = map Some ns \<Longrightarrow> sorted ns \<Longrightarrow> low \<le> high \<Longrightarrow> high \<le> length ns \<Longrightarrow>
   (\<forall>i<low. ns ! i \<le> x) \<Longrightarrow> (\<forall>i. high \<le> i \<and> i < length ns \<longrightarrow> x < ns ! i) \<Longrightarrow>
   positionAt_loop t x low high \<le> length ns \<and>
   (\<forall>i<positionAt_loop t x low high. ns ! i \<le> x) \<and>
   (\<forall>i. positionAt_loop t x low high \<le> i \<and> i < length ns \<longrightarrow> x < ns ! i)"
proof (induction t x low high rule: positionAt_loop.induct)
  case (1 t x low high)
  note t = \<open>t = map Some ns\<close> and srt = \<open>sorted ns\<close> and hl = \<open>high \<le> length ns\<close>
    and lo = \<open>\<forall>i<low. ns ! i \<le> x\<close> and hi = \<open>\<forall>i. high \<le> i \<and> i < length ns \<longrightarrow> x < ns ! i\<close>
  show ?case
  proof (cases "low < high")
    case False
    with 1(3-) show ?thesis by (subst (1 2 3) positionAt_loop.simps) simp
  next
    case lt: True
    define mid where "mid = (low + high) div 2"
    have mid: "low \<le> mid" "mid < high" using lt by (simp_all add: mid_def)
    have rd: "t ! mid = Some (ns ! mid)" using mid hl t by simp
    show ?thesis
    proof (cases "ns ! mid > x")
      case gt: True
      have jg: "js_gt (t ! mid) (Some x)" using gt rd by simp
      have up: "\<forall>i. mid \<le> i \<and> i < length ns \<longrightarrow> x < ns ! i"
      proof (intro allI impI)
        fix i assume "mid \<le> i \<and> i < length ns"
        then have "ns ! mid \<le> ns ! i" using srt by (simp add: sorted_nth_mono)
        with gt show "x < ns ! i" by simp
      qed
      have step: "positionAt_loop t x low high = positionAt_loop t x low mid"
        using lt jg by (subst positionAt_loop.simps) (simp add: mid_def Let_def)
      have "mid \<le> length ns" using mid hl by simp
      from 1(1)[OF lt mid_def jg t srt mid(1) this lo up] show ?thesis
        unfolding step .
    next
      case le: False
      have jg: "\<not> js_gt (t ! mid) (Some x)" using le rd by simp
      have down: "\<forall>i<mid + 1. ns ! i \<le> x"
      proof (intro allI impI)
        fix i assume "i < mid + 1"
        then have "ns ! i \<le> ns ! mid" using srt mid hl by (simp add: sorted_nth_mono)
        with le show "ns ! i \<le> x" by simp
      qed
      have step: "positionAt_loop t x low high = positionAt_loop t x (mid + 1) high"
        using lt jg by (subst positionAt_loop.simps) (simp add: mid_def Let_def)
      have "mid + 1 \<le> high" using mid by simp
      from 1(2)[OF lt mid_def jg t srt this hl down hi] show ?thesis
        unfolding step .
    qed
  qed
qed

lemma positionAt_loop_le:
  "low \<le> high \<Longrightarrow> positionAt_loop t x low high \<le> high"
proof (induction t x low high rule: positionAt_loop.induct)
  case (1 t x low high)
  show ?case
  proof (cases "low < high")
    case False
    with 1(3) show ?thesis by (subst positionAt_loop.simps) simp
  next
    case lt: True
    define mid where "mid = (low + high) div 2"
    have mid: "low \<le> mid" "mid < high" using lt by (simp_all add: mid_def)
    show ?thesis
    proof (cases "js_gt (t ! mid) (Some x)")
      case jg: True
      have step: "positionAt_loop t x low high = positionAt_loop t x low mid"
        using lt jg by (subst positionAt_loop.simps) (simp add: mid_def Let_def)
      from 1(1)[OF lt mid_def jg mid(1)] mid show ?thesis unfolding step by simp
    next
      case jg: False
      have step: "positionAt_loop t x low high = positionAt_loop t x (mid + 1) high"
        using lt jg by (subst positionAt_loop.simps) (simp add: mid_def Let_def)
      have "mid + 1 \<le> high" using mid by simp
      from 1(2)[OF lt mid_def jg this] show ?thesis unfolding step .
    qed
  qed
qed

lemma table_ok_compute: "table_ok (computeLineOffsets s True 0) (length s)"
proof -
  have "sorted_wrt (<) (0 # lineStarts s 0)"
    using lineStarts_sorted[of s 0] lineStarts_bounds[of _ s 0] by auto
  then have "sorted (0 # lineStarts s 0)"
    by (rule sorted_wrt_mono_rel[rotated]) simp
  then show ?thesis
    using lineStarts_bounds[of _ s 0]
    by (auto simp: table_ok_def computeLineOffsets_lineStarts)
qed

lemma offsetAt_table_range:
  assumes "table_ok t n"
  shows "line p < int (length t) \<Longrightarrow> 0 \<le> line p \<Longrightarrow>
     0 \<le> t ! nat (line p) \<and>
     t ! nat (line p) \<le> (if line p + 1 < int (length t) then t ! nat (line p + 1) else int n)"
proof -
  assume a: "line p < int (length t)" "0 \<le> line p"
  have s: "sorted t" and z: "t ! 0 = 0" and b: "\<forall>v \<in> set t. v \<le> int n"
    using assms by (simp_all add: table_ok_def)
  have "t ! 0 \<le> t ! nat (line p)" using s a by (simp add: sorted_nth_mono)
  moreover have "t ! nat (line p) \<le> int n" using b a by simp
  moreover have "line p + 1 < int (length t) \<Longrightarrow> t ! nat (line p) \<le> t ! nat (line p + 1)"
    using s a by (simp add: sorted_nth_mono nat_add_distrib)
  ultimately show ?thesis using z by auto
qed

lemma roundtrip_table:
  assumes ok: "table_ok t (length (content d))" and c: "lineOffsets d = Some (map Some t)"
  shows "\<exists>x q. fst (offsetAt d p) = Some x \<and> fst (positionAt d x) = Some q \<and>
               fst (offsetAt d q) = Some x"
proof -
  let ?n = "int (length (content d))"
  have g: "getLineOffsets d = (map Some t, d)" using c by (simp add: getLineOffsets_def)
  have s: "sorted t" and z: "t ! 0 = 0" and b: "\<forall>v \<in> set t. v \<le> ?n" and ne: "t \<noteq> []"
    using ok by (simp_all add: table_ok_def)
  have "\<exists>x. fst (offsetAt d p) = Some x \<and> 0 \<le> x \<and> x \<le> ?n"
  proof (cases "line p \<ge> int (length t) \<or> line p < 0")
    case True
    then show ?thesis by (auto simp: offsetAt_def g)
  next
    case False
    then have a: "line p < int (length t)" "0 \<le> line p" by auto
    have nb: "line p + 1 < int (length t) \<Longrightarrow> t ! nat (line p + 1) \<le> ?n"
      using b a by simp
    have lb: "t ! nat (line p) \<le> ?n" using b a by simp
    have r1: "map Some t ! nat (line p) = Some (t ! nat (line p))" using a by simp
    have r2: "line p + 1 < int (length t) \<Longrightarrow>
        map Some t ! nat (line p + 1) = Some (t ! nat (line p + 1))" using a by simp
    from offsetAt_table_range[OF ok a] nb lb a show ?thesis
      by (auto simp: offsetAt_def g Let_def r1 r2 min_def max_def)
  qed
  then obtain x where fx: "fst (offsetAt d p) = Some x" and xr: "0 \<le> x \<and> x \<le> ?n" by blast
  then have io: "max (min x ?n) 0 = x" by simp
  define r where "r = positionAt_loop (map Some t) x 0 (length t)"
  have spec: "r \<le> length t \<and> (\<forall>i<r. t ! i \<le> x) \<and> (\<forall>i. r \<le> i \<and> i < length t \<longrightarrow> x < t ! i)"
    unfolding r_def by (rule positionAt_loop_spec[OF refl]) (use s in auto)
  have rpos: "r \<noteq> 0"
  proof
    assume "r = 0"
    with spec ne have "x < t ! 0" by simp
    with z xr show False by simp
  qed
  obtain k where rk: "r = Suc k" using rpos by (cases r) auto
  have kl: "k < length t" using spec rk by simp
  define q where "q = \<lparr>line = int k, character = x - t ! k\<rparr>"
  have rd: "map Some t ! k = Some (t ! k)" using kl by simp
  have pa: "fst (positionAt d x) = Some q"
    using ne by (simp add: positionAt_def g io Let_def r_def[symmetric] rk q_def rd)
  have lo: "t ! k \<le> x" using spec rk by simp
  have nx: "Suc k < length t \<Longrightarrow> x < t ! Suc k" using spec rk by simp
  have lq: "line q = int k" "character q = x - t ! k" by (simp_all add: q_def)
  have n1: "nat (int k + 1) = Suc k" by simp
  have "fst (offsetAt d q) = Some x"
  proof (cases "Suc k < length t")
    case True
    have c1: "int k + 1 < int (length t)" using True by simp
    have rd2: "map Some t ! Suc k = Some (t ! Suc k)" using True by simp
    have "fst (offsetAt d q) =
          js_max (js_min (js_add (Some (t ! k)) (Some (x - t ! k))) (Some (t ! Suc k)))
            (Some (t ! k))"
      using kl c1 by (simp add: offsetAt_def g lq Let_def rd rd2 n1 del: nth_map)
    also have "\<dots> = Some x" using nx[OF True] lo by simp
    finally show ?thesis .
  next
    case False
    have c1: "\<not> int k + 1 < int (length t)" using False by simp
    have "fst (offsetAt d q) =
          js_max (js_min (js_add (Some (t ! k)) (Some (x - t ! k))) (Some ?n)) (Some (t ! k))"
      using kl c1 by (simp add: offsetAt_def g lq Let_def rd del: nth_map)
    also have "\<dots> = Some x" using xr lo by simp
    finally show ?thesis .
  qed
  with pa fx show ?thesis by blast
qed
subsection \<open>Round trip of offsets and positions; CR LF\<close>

lemma positionAt_loop_unique:
  assumes s: "sorted t" and k: "k \<le> length t"
    and lo: "\<forall>i<k. t ! i \<le> x" and hi: "\<forall>i. k \<le> i \<and> i < length t \<longrightarrow> x < t ! i"
  shows "positionAt_loop (map Some t) x 0 (length t) = k"
proof -
  define r where "r = positionAt_loop (map Some t) x 0 (length t)"
  have spec: "r \<le> length t \<and> (\<forall>i<r. t ! i \<le> x) \<and> (\<forall>i. r \<le> i \<and> i < length t \<longrightarrow> x < t ! i)"
    unfolding r_def by (rule positionAt_loop_spec[OF refl]) (use s in auto)
  have "\<not> r < k"
  proof
    assume a: "r < k"
    then have "t ! r \<le> x" using lo by simp
    moreover have "x < t ! r" using spec a k by simp
    ultimately show False by simp
  qed
  moreover have "\<not> k < r"
  proof
    assume a: "k < r"
    then have "t ! k \<le> x" using spec by simp
    moreover have "x < t ! k" using hi a spec by simp
    ultimately show False by simp
  qed
  ultimately show ?thesis unfolding r_def by simp
qed

lemma roundtrip_fresh:
  assumes "lineOffsets d = None"
  shows "\<exists>x q. fst (offsetAt d p) = Some x \<and>
               fst (positionAt (snd (offsetAt d p)) x) = Some q \<and>
               fst (offsetAt (snd (positionAt (snd (offsetAt d p)) x)) q) = Some x"
proof -
  define t where "t = computeLineOffsets (content d) True 0"
  define d1 where "d1 = d\<lparr>lineOffsets := Some (map Some t)\<rparr>"
  have g: "getLineOffsets d = (map Some t, d1)"
    using assms by (simp add: getLineOffsets_def t_def d1_def Let_def)
  have g1: "getLineOffsets d1 = (map Some t, d1)" by (simp add: getLineOffsets_def d1_def)
  have c1: "content d1 = content d" by (simp add: d1_def)
  have s1: "snd (offsetAt d p) = d1" by (simp add: offsetAt_def g Let_def)
  have f1: "fst (offsetAt d p) = fst (offsetAt d1 p)"
    by (simp add: offsetAt_def g g1 c1 Let_def)
  have s2: "snd (positionAt d1 x) = d1" for x
    by (simp add: positionAt_def g1 Let_def split: option.splits)
  have ok: "table_ok t (length (content d1))"
    unfolding t_def c1 by (rule table_ok_compute)
  have "lineOffsets d1 = Some (map Some t)" by (simp add: d1_def)
  from roundtrip_table[OF ok this, of p] show ?thesis
    unfolding s1 f1 s2 .
qed

text \<open>Claim C6. For every document text and every position \<open>p\<close>, converting \<open>p\<close> to an
  offset, that offset back to a position, and that position to an offset again gives the first
  offset: \<open>offsetAt(positionAt(offsetAt(p))) = offsetAt(p)\<close>. The document starts without a
  cached table, so the table is the one computed from its text; the position is arbitrary
  (out-of-range lines and characters are clamped by \<open>offsetAt\<close>); both offsets are numbers, and
  \<open>positionAt\<close> does return a position.\<close>

theorem offsetAt_positionAt_roundtrip:
  "let (o1, d1) = offsetAt (d\<lparr>lineOffsets := None\<rparr>) p
   in \<exists>x. o1 = Some x \<and>
        (let (q, d2) = positionAt d1 x
         in \<exists>q'. q = Some q' \<and> fst (offsetAt d2 q') = o1)"
proof -
  have "lineOffsets (d\<lparr>lineOffsets := None\<rparr>) = None" by simp
  from roundtrip_fresh[OF this, of p] show ?thesis
    by (auto simp: split_beta Let_def)
qed

lemma computeLineOffsets_append_CRLF:
  "computeLineOffsets (a @ [CarriageReturn, LineFeed] @ b) True off =
   computeLineOffsets a True off @ computeLineOffsets b True (off + int (length a) + 2)"
  by (simp add: computeLineOffsets_lineStarts lineStarts_append_CRLF)

lemma computeLineOffsets_append_CR:
  "b = [] \<or> hd b \<noteq> LineFeed \<Longrightarrow>
   computeLineOffsets (a @ [CarriageReturn] @ b) True off =
   computeLineOffsets a True off @ computeLineOffsets b True (off + int (length a) + 1)"
  by (simp add: computeLineOffsets_lineStarts lineStarts_append_CR)

lemma computeLineOffsets_append_LF:
  "a = [] \<or> last a \<noteq> CarriageReturn \<Longrightarrow>
   computeLineOffsets (a @ [LineFeed] @ b) True off =
   computeLineOffsets a True off @ computeLineOffsets b True (off + int (length a) + 1)"
  by (simp add: computeLineOffsets_lineStarts lineStarts_append_LF)

lemma lineStarts_shift:
  "lineStarts s (b + k) = map (\<lambda>v. v + k) (lineStarts s b)"
  by (induction s b rule: lineStarts.induct) (simp_all add: ac_simps)

lemma length_lineStarts: "length (lineStarts s b) = length (lineStarts s 0)"
  using lineStarts_shift[of s 0 b] by simp

lemma lineCount_create:
  "lineCount (create v s) = length (computeLineOffsets s True 0)"
  by (simp add: lineCount_def getLineOffsets_def create_def Let_def)

lemma lineCount_CRLF:
  "lineCount (create v (a @ [CarriageReturn, LineFeed] @ b)) =
   lineCount (create v a) + lineCount (create v b)"
  by (simp add: lineCount_create computeLineOffsets_lineStarts lineStarts_append_CRLF
      length_lineStarts[of b "int (length a) + 2"])

lemma positionAt_create:
  "fst (positionAt (create v s) x) =
     (let io = max (min x (int (length s))) 0; t = computeLineOffsets s True 0;
          low = positionAt_loop (map Some t) io 0 (length t)
      in if low = 0 then None
         else Some \<lparr>line = int low - 1, character = io - t ! (low - 1)\<rparr>)"
proof -
  define io where "io = max (min x (int (length s))) 0"
  define t where "t = computeLineOffsets s True 0"
  define low where "low = positionAt_loop (map Some t) io 0 (length t)"
  have ne: "length t \<noteq> 0" by (simp add: t_def computeLineOffsets_lineStarts)
  have "low \<le> length t" unfolding low_def by (rule positionAt_loop_le) simp
  then have rd: "low \<noteq> 0 \<Longrightarrow> map Some t ! (low - 1) = Some (t ! (low - 1))"
    by (intro nth_map) arith
  have g: "getLineOffsets (create v s) =
           (map Some t, (create v s)\<lparr>lineOffsets := Some (map Some t)\<rparr>)"
    by (simp add: getLineOffsets_def create_def Let_def t_def)
  have c: "content (create v s) = s" by (simp add: create_def)
  have "fst (positionAt (create v s) x) =
        (if low = 0 then None
         else Some \<lparr>line = int low - 1, character = io - t ! (low - 1)\<rparr>)"
    using ne rd
    by (simp add: positionAt_def g c Let_def io_def[symmetric] low_def[symmetric])
  then show ?thesis by (simp add: Let_def io_def t_def low_def)
qed

lemma positionAt_after_CRLF:
  "fst (positionAt (create v (a @ [CarriageReturn, LineFeed] @ b)) (int (length a) + 2)) =
   Some \<lparr>line = int (lineCount (create v a)), character = 0\<rparr>"
proof -
  let ?s = "a @ [CarriageReturn, LineFeed] @ b"
  let ?ta = "computeLineOffsets a True 0"
  let ?tb = "lineStarts b (int (length a) + 2)"
  let ?t = "computeLineOffsets ?s True 0"
  let ?x = "int (length a) + 2"
  have t: "?t = ?ta @ ?x # ?tb"
    by (simp add: computeLineOffsets_lineStarts lineStarts_append_CRLF)
  have ok: "table_ok ?t (length ?s)" by (rule table_ok_compute)
  have ta: "\<forall>v \<in> set ?ta. v \<le> int (length a)"
    using table_ok_compute[of a] by (simp add: table_ok_def)
  have tb: "\<forall>v \<in> set ?tb. ?x < v" using lineStarts_bounds[of _ b ?x] by auto
  have io: "max (min ?x (int (length ?s))) 0 = ?x" by simp
  have "positionAt_loop (map Some ?t) ?x 0 (length ?t) = length ?ta + 1"
  proof (rule positionAt_loop_unique)
    show "sorted ?t" using ok by (simp add: table_ok_def)
    show "length ?ta + 1 \<le> length ?t" unfolding t by simp
    show "\<forall>i<length ?ta + 1. ?t ! i \<le> ?x"
    proof (intro allI impI)
      fix i assume "i < length ?ta + 1"
      then consider "i < length ?ta" | "i = length ?ta" by linarith
      then show "?t ! i \<le> ?x"
      proof cases
        case 1
        then have "?t ! i = ?ta ! i" unfolding t by (simp add: nth_append)
        moreover have "?ta ! i \<le> int (length a)" using ta 1 by (meson nth_mem)
        ultimately show ?thesis by simp
      next
        case 2
        then show ?thesis unfolding t by (simp add: nth_append)
      qed
    qed
    show "\<forall>i. length ?ta + 1 \<le> i \<and> i < length ?t \<longrightarrow> ?x < ?t ! i"
    proof (intro allI impI)
      fix i assume a: "length ?ta + 1 \<le> i \<and> i < length ?t"
      then have "?t ! i = ?tb ! (i - length ?ta - 1)"
        unfolding t by (auto simp: nth_append nth_Cons')
      moreover have "i - length ?ta - 1 < length ?tb" using a unfolding t by auto
      ultimately show "?x < ?t ! i" using tb by (metis nth_mem)
    qed
  qed
  moreover have "?t ! (length ?ta + 1 - 1) = ?x" unfolding t by (simp add: nth_append)
  ultimately show ?thesis
    unfolding positionAt_create Let_def io
    by (simp add: lineCount_create)
qed

lemma positionAt_inside_CRLF:
  "fst (positionAt (create v (a @ [CarriageReturn, LineFeed] @ b)) (int (length a) + 1)) =
   Some \<lparr>line = int (lineCount (create v a)) - 1,
         character = int (length a) + 1 - last (computeLineOffsets a True 0)\<rparr>"
proof -
  let ?s = "a @ [CarriageReturn, LineFeed] @ b"
  let ?ta = "computeLineOffsets a True 0"
  let ?tb = "lineStarts b (int (length a) + 2)"
  let ?t = "computeLineOffsets ?s True 0"
  let ?x = "int (length a) + 1"
  have t: "?t = ?ta @ (int (length a) + 2) # ?tb"
    by (simp add: computeLineOffsets_lineStarts lineStarts_append_CRLF)
  have ne: "?ta \<noteq> []" by (simp add: computeLineOffsets_lineStarts)
  have ok: "table_ok ?t (length ?s)" by (rule table_ok_compute)
  have ta: "\<forall>v \<in> set ?ta. v \<le> int (length a)"
    using table_ok_compute[of a] by (simp add: table_ok_def)
  have tb: "\<forall>v \<in> set ?tb. int (length a) + 2 < v"
    using lineStarts_bounds[of _ b "int (length a) + 2"] by auto
  have io: "max (min ?x (int (length ?s))) 0 = ?x" by simp
  have "positionAt_loop (map Some ?t) ?x 0 (length ?t) = length ?ta"
  proof (rule positionAt_loop_unique)
    show "sorted ?t" using ok by (simp add: table_ok_def)
    show "length ?ta \<le> length ?t" unfolding t by simp
    show "\<forall>i<length ?ta. ?t ! i \<le> ?x"
    proof (intro allI impI)
      fix i assume 1: "i < length ?ta"
      then have "?t ! i = ?ta ! i" unfolding t by (simp add: nth_append)
      moreover have "?ta ! i \<le> int (length a)" using ta 1 by (meson nth_mem)
      ultimately show "?t ! i \<le> ?x" by simp
    qed
    show "\<forall>i. length ?ta \<le> i \<and> i < length ?t \<longrightarrow> ?x < ?t ! i"
    proof (intro allI impI)
      fix i assume a: "length ?ta \<le> i \<and> i < length ?t"
      then have "?t ! i \<in> set ((int (length a) + 2) # ?tb)"
        unfolding t by (auto simp: nth_append nth_Cons')
      then show "?x < ?t ! i" using tb by auto
    qed
  qed
  moreover have "?t ! (length ?ta - 1) = last ?ta"
    unfolding t using ne by (simp add: nth_append last_conv_nth)
  ultimately show ?thesis
    unfolding positionAt_create Let_def io
    using ne by (simp add: lineCount_create)
qed

lemma computeLineOffsets_range:
  "v \<in> set (computeLineOffsets s True off) \<Longrightarrow> off \<le> v \<and> v \<le> off + int (length s)"
  using lineStarts_bounds[of v s off] by (auto simp: computeLineOffsets_lineStarts)

text \<open>Claim C10. The line-offset table treats a CR LF pair as one line terminator: the table
  of \<open>a @ CR LF @ b\<close> is the table of \<open>a\<close> followed by the table of \<open>b\<close> placed right after the
  pair, with no line start between the two characters; a lone CR (not followed by LF) and a
  lone LF (not preceded by CR) each start a new line right after themselves. Hence
  \<open>lineCount\<close> counts the pair once, and \<open>positionAt\<close> puts the offset between CR and LF on
  the line before the break and the offset after the pair at column 0 of the next line.\<close>

theorem computeLineOffsets_CRLF_one_terminator:
  "computeLineOffsets (a @ [CarriageReturn, LineFeed] @ b) True off =
     computeLineOffsets a True off @ computeLineOffsets b True (off + int (length a) + 2)
   \<and> off + int (length a) + 1 \<notin> set (computeLineOffsets (a @ [CarriageReturn, LineFeed] @ b) True off)
   \<and> ((b = [] \<or> hd b \<noteq> LineFeed) \<longrightarrow>
        computeLineOffsets (a @ [CarriageReturn] @ b) True off =
        computeLineOffsets a True off @ computeLineOffsets b True (off + int (length a) + 1))
   \<and> ((a = [] \<or> last a \<noteq> CarriageReturn) \<longrightarrow>
        computeLineOffsets (a @ [LineFeed] @ b) True off =
        computeLineOffsets a True off @ computeLineOffsets b True (off + int (length a) + 1))
   \<and> lineCount (create v (a @ [CarriageReturn, LineFeed] @ b)) =
        lineCount (create v a) + lineCount (create v b)
   \<and> fst (positionAt (create v (a @ [CarriageReturn, LineFeed] @ b)) (int (length a) + 1)) =
        Some \<lparr>line = int (lineCount (create v a)) - 1,
              character = int (length a) + 1 - last (computeLineOffsets a True 0)\<rparr>
   \<and> fst (positionAt (create v (a @ [CarriageReturn, LineFeed] @ b)) (int (length a) + 2)) =
        Some \<lparr>line = int (lineCount (create v a)), character = 0\<rparr>"
proof -
  have "off + int (length a) + 1 \<notin> set (computeLineOffsets a True off)"
    using computeLineOffsets_range[of "off + int (length a) + 1" a off] by auto
  moreover have "off + int (length a) + 1 \<notin> set (computeLineOffsets b True (off + int (length a) + 2))"
    using computeLineOffsets_range[of "off + int (length a) + 1" b "off + int (length a) + 2"] by auto
  ultimately have "off + int (length a) + 1 \<notin>
      set (computeLineOffsets (a @ [CarriageReturn, LineFeed] @ b) True off)"
    unfolding computeLineOffsets_append_CRLF by simp
  then show ?thesis
    using computeLineOffsets_append_CRLF[of a b off] computeLineOffsets_append_CR[of b a off]
      computeLineOffsets_append_LF[of a b off] lineCount_CRLF[of v a b]
      positionAt_inside_CRLF[of v a b] positionAt_after_CRLF[of v a b]
    by blast
qed

theorem computeLineOffsets_CRLF_one_terminator_witness:
  "(''y'' = [] \<or> hd ''y'' \<noteq> LineFeed) \<and> (''x'' = [] \<or> last ''x'' \<noteq> CarriageReturn)
   \<and> computeLineOffsets (''x'' @ [CarriageReturn, LineFeed] @ ''y'') True 0 = [0, 3]
   \<and> computeLineOffsets (''x'' @ [CarriageReturn] @ ''y'') True 0 = [0, 2]
   \<and> computeLineOffsets (''x'' @ [LineFeed] @ ''y'') True 0 = [0, 2]
   \<and> lineCount (create 0 (''x'' @ [CarriageReturn, LineFeed] @ ''y'')) = 2
   \<and> fst (positionAt (create 0 (''x'' @ [CarriageReturn, LineFeed] @ ''y'')) 2) =
        Some \<lparr>line = 0, character = 2\<rparr>
   \<and> fst (positionAt (create 0 (''x'' @ [CarriageReturn, LineFeed] @ ''y'')) 3) =
        Some \<lparr>line = 1, character = 0\<rparr>"
  using computeLineOffsets_CRLF_one_terminator[of "''x''" "''y''" 0 0]
  by (simp add: computeLineOffsets_lineStarts lineCount_create CarriageReturn_def LineFeed_def)

subsection \<open>Malformed ranges\<close>

lemma getWellformedRange_swapped:
  assumes "line (r_start r) > line (r_end r) \<or>
           (line (r_start r) = line (r_end r) \<and> character (r_start r) > character (r_end r))"
  shows "getWellformedRange r = \<lparr>r_start = r_end r, r_end = r_start r\<rparr>"
    and "getWellformedRange \<lparr>r_start = r_end r, r_end = r_start r\<rparr> =
         \<lparr>r_start = r_end r, r_end = r_start r\<rparr>"
  using assms by (auto simp: getWellformedRange_def)

lemma applyChange_swapped:
  assumes "line (r_start r) > line (r_end r) \<or>
           (line (r_start r) = line (r_end r) \<and> character (r_start r) > character (r_end r))"
  shows "applyChange d \<lparr>c_range = Some r, c_rangeLength = rl, c_text = t\<rparr> =
         applyChange d \<lparr>c_range = Some \<lparr>r_start = r_end r, r_end = r_start r\<rparr>,
                          c_rangeLength = rl, c_text = t\<rparr>"
  unfolding applyChange_def isIncremental_def
  by (simp add: getWellformedRange_swapped[OF assms] Let_def split_beta split: sum.splits)

lemma applyChanges_append:
  "applyChanges d (xs @ ys) =
     (case applyChanges d xs of Inl e \<Rightarrow> Inl e | Inr d' \<Rightarrow> applyChanges d' ys)"
  by (induction xs arbitrary: d) (auto split: sum.splits)

text \<open>Claim C9. When the range of an incremental edit is malformed (its start lies after its
  end), \<open>getWellformedRange\<close> swaps the two ends, and \<open>update\<close> gives exactly what it gives
  for the same edit with the swapped range, wherever the edit stands in the list of changes:
  the same text, table, tree and version, or the same error. A well-formed range is returned
  unchanged.\<close>

theorem update_swaps_malformed_range:
  "(line (r_start r) > line (r_end r) \<or>
      (line (r_start r) = line (r_end r) \<and> character (r_start r) > character (r_end r))
    \<longrightarrow> getWellformedRange r = \<lparr>r_start = r_end r, r_end = r_start r\<rparr>
      \<and> update d (pre @ [\<lparr>c_range = Some r, c_rangeLength = rl, c_text = t\<rparr>] @ post) v =
        update d (pre @ [\<lparr>c_range = Some \<lparr>r_start = r_end r, r_end = r_start r\<rparr>,
                            c_rangeLength = rl, c_text = t\<rparr>] @ post) v)
   \<and> (\<not> (line (r_start r) > line (r_end r) \<or>
      (line (r_start r) = line (r_end r) \<and> character (r_start r) > character (r_end r)))
    \<longrightarrow> getWellformedRange r = r)"
proof (intro conjI impI)
  assume m: "line (r_start r) > line (r_end r) \<or>
      (line (r_start r) = line (r_end r) \<and> character (r_start r) > character (r_end r))"
  show "getWellformedRange r = \<lparr>r_start = r_end r, r_end = r_start r\<rparr>"
    by (rule getWellformedRange_swapped(1)[OF m])
  show "update d (pre @ [\<lparr>c_range = Some r, c_rangeLength = rl, c_text = t\<rparr>] @ post) v =
        update d (pre @ [\<lparr>c_range = Some \<lparr>r_start = r_end r, r_end = r_start r\<rparr>,
                            c_rangeLength = rl, c_text = t\<rparr>] @ post) v"
    unfolding update_def applyChanges_append
    by (simp add: applyChange_swapped[OF m] split: sum.splits)
next
  assume "\<not> (line (r_start r) > line (r_end r) \<or>
      (line (r_start r) = line (r_end r) \<and> character (r_start r) > character (r_end r)))"
  then show "getWellformedRange r = r" by (auto simp: getWellformedRange_def)
qed

theorem update_swaps_malformed_range_witness:
  "(line \<lparr>line = 1, character = 1\<rparr> > line \<lparr>line = 0, character = 1\<rparr>) \<and>
   update (create 0 (''ab'' @ [LineFeed] @ ''cd''))
       [\<lparr>c_range = Some \<lparr>r_start = \<lparr>line = 1, character = 1\<rparr>,
                          r_end = \<lparr>line = 0, character = 1\<rparr>\<rparr>,
         c_rangeLength = None, c_text = ''XY''\<rparr>] 1 =
     Inr \<lparr>version = 1, content = ''aXYd'', lineOffsets = Some [Some 0],
          tree_text = ''aXYd'', tree_edits = []\<rparr>"
proof -
  have ex: "update (create 0 (''ab'' @ [LineFeed] @ ''cd''))
       [\<lparr>c_range = Some \<lparr>r_start = \<lparr>line = 0, character = 1\<rparr>,
                          r_end = \<lparr>line = 1, character = 1\<rparr>\<rparr>,
         c_rangeLength = None, c_text = ''XY''\<rparr>] 1 =
     Inr \<lparr>version = 1, content = ''aXYd'', lineOffsets = Some [Some 0],
          tree_text = ''aXYd'', tree_edits = []\<rparr>"
    by code_simp
  from update_swaps_malformed_range[of
      "\<lparr>r_start = \<lparr>line = 1, character = 1\<rparr>, r_end = \<lparr>line = 0, character = 1\<rparr>\<rparr>"
      "create 0 (''ab'' @ [LineFeed] @ ''cd'')" "[]" None "''XY''" "[]" 1] ex
  show ?thesis by simp
qed

section \<open>Properties of the task manager\<close>

lemma find_append:
  "find P (xs @ ys) = (case find P xs of None \<Rightarrow> find P ys | Some x \<Rightarrow> Some x)"
  by (induction xs) auto

lemma find_Some_prop: "find P xs = Some x \<Longrightarrow> P x \<and> x \<in> set xs"
  by (induction xs) (auto split: if_splits)

lemma find_None_iff2: "find P xs = None \<longleftrightarrow> (\<forall>x \<in> set xs. \<not> P x)"
  by (induction xs) auto

lemma createJob_effect:
  assumes q: "priorityQueue s = []" and c: "createJob s task = Inr (h, s')"
  shows "h = jobIdCounter s + 1" "jobs_by_taskId s (t_id task) = None"
    "jobs_by_id s h = None" "s' = begun s h (t_id task)"
proof -
  let ?nj = "\<lparr>j_id = jobIdCounter s + 1, j_taskId = t_id task\<rparr>"
  let ?s1 = "s\<lparr>jobIdCounter := jobIdCounter s + 1\<rparr>"
  from c obtain s2 where ins: "store_jobs_insert ?s1 ?nj = Inr s2"
    and h: "h = jobIdCounter s + 1"
    and s': "s' = jobQueue_next (s2\<lparr>priorityQueue := priorityQueue s2 @ [jobIdCounter s + 1]\<rparr>)"
    by (auto simp: createJob_def Let_def split: sum.splits)
  from ins have n1: "jobs_by_id s (jobIdCounter s + 1) = None"
    and n2: "jobs_by_taskId s (t_id task) = None"
    and s2: "s2 = ?s1\<lparr>jobs := jobs s @ [?nj]\<rparr>"
    by (auto simp: store_jobs_insert_def jobs_by_id_def jobs_by_taskId_def split: if_splits)
  show "h = jobIdCounter s + 1" by (rule h)
  show "jobs_by_taskId s (t_id task) = None" by (rule n2)
  show "jobs_by_id s h = None" using n1 h by simp
  have f: "jobs_by_id (s\<lparr>jobIdCounter := h, jobs := jobs s @ [\<lparr>j_id = h, j_taskId = t_id task\<rparr>]\<rparr>) h
           = Some \<lparr>j_id = h, j_taskId = t_id task\<rparr>"
    using n1 h by (simp add: find_append jobs_by_id_def)
  have pq: "s\<lparr>jobIdCounter := a, jobs := b, priorityQueue := []\<rparr> = s\<lparr>jobIdCounter := a, jobs := b\<rparr>"
    for a b using q by (cases s) simp
  define s4 where "s4 = s\<lparr>jobIdCounter := h, jobs := jobs s @ [\<lparr>j_id = h, j_taskId = t_id task\<rparr>]\<rparr>"
  have pop: "queue_pop (s2\<lparr>priorityQueue := priorityQueue s2 @ [jobIdCounter s + 1]\<rparr>) = Inr (Some h, s4)"
    unfolding s2 s4_def h by (simp add: queue_pop_def q pq)
  have s': "s' = processJob_begin s4 (Some h)"
    unfolding s' jobQueue_next_def pop by simp
  have c4: "cancelled s4 = cancelled s" "events s4 = events s" "running s4 = running s"
    "tasks_by_id s4 = tasks_by_id s"
    by (simp_all add: s4_def tasks_by_id_def fun_eq_iff)
  show "s' = begun s h (t_id task)"
    unfolding s' processJob_begin_def begun_def
    using f[folded s4_def]
    by (auto simp: c4 Job_task_def split: option.splits) (simp_all add: s4_def)
qed

lemma submit_preserves:
  assumes cj: "\<And>s task h s'. P s \<Longrightarrow> createJob s task = Inr (h, s') \<Longrightarrow> P s'"
  shows "submitTask n s ti = Some (Inr (h, s')) \<Longrightarrow> P s \<Longrightarrow> P s'"
    and "submitDependencies n s ts = Some (Inr s'') \<Longrightarrow> P s \<Longrightarrow> P s''"
proof (induction n s ti and n s ts arbitrary: h s' and s''
       rule: submitTask_submitDependencies.induct)
  case (1 s taskIdent)
  then show ?case by simp
next
  case (2 n s taskIdent)
  from 2(2) obtain task where t: "(case taskIdent of
              ById i \<Rightarrow> (case tasks_by_id s i of None \<Rightarrow> Inl IllegalUndefinedValue
                                               | Some t \<Rightarrow> Inr t)
            | ByTask t \<Rightarrow> Inr t) = Inr task"
    by (auto split: sum.splits)
  show ?case
  proof (cases "Task_job s task")
    case (Some job)
    with 2(2) t have "s' = s" by simp
    with 2(3) show ?thesis by simp
  next
    case None
    with 2(2) t obtain s1 where d: "submitDependencies n s (Task_dependencies s task) = Some (Inr s1)"
      and c: "createJob s1 task = Inr (h, s')"
      by (auto split: option.splits sum.splits)
    have "P s1" using 2(1)[OF t None d 2(3)] .
    then show ?thesis using c by (rule cj)
  qed
next
  case (3 n s)
  then show ?case by simp
next
  case (4 n s depTask rest)
  show ?case
  proof (cases "t_lastCompleted depTask = None \<and> Task_job s depTask = None")
    case True
    with 4(4) obtain h1 s1 where a: "submitTask n s (ByTask depTask) = Some (Inr (h1, s1))"
      and b: "submitDependencies n s1 rest = Some (Inr s'')"
      by (auto split: option.splits sum.splits)
    have "P s1" using 4(1)[OF True a 4(5)] .
    from 4(2)[OF True a _ _ b this] show ?thesis by simp
  next
    case False
    with 4(4) have "submitDependencies n s rest = Some (Inr s'')" by auto
    from 4(3)[OF False this 4(5)] show ?thesis .
  qed
qed

subsection \<open>Invariants along runs\<close>

lemma resume_fields:
  fixes s :: "'o Server" and job diags now
  defines "s' \<equiv> processJob_resume s job diags now"
  shows "priorityQueue s' = priorityQueue s" "cancelled s' = cancelled s"
    "jobIdCounter s' = jobIdCounter s" "running s' = remove1 job (running s)"
    "fulfilled s' = fulfilled s \<or> fulfilled s' = fulfilled s @ [j_id job]"
    "events s' = events s @ [Aborted (j_id job)] \<or>
     (\<exists>tid. events s' = events s @ [Completed (j_id job) tid now])"
    "jobs s' = jobs s \<or> jobs s' = filter (\<lambda>j. j_id j \<noteq> j_id job) (jobs s)"
  unfolding s'_def processJob_resume_def Let_def store_documents_update_def store_tasks_update_def
  by (auto split: option.splits sum.splits if_splits simp: Job_task_def tasks_by_id_def
      Task_document_def documents_by_id_def)

lemma begun_fields:
  "priorityQueue (begun s h tid) = priorityQueue s"
  "jobIdCounter (begun s h tid) = h"
  "fulfilled (begun s h tid) = fulfilled s"
  "jobs (begun s h tid) = jobs s @ [\<lparr>j_id = h, j_taskId = tid\<rparr>]"
  "tasks (begun s h tid) = tasks s"
  "documents (begun s h tid) = documents s"
  "workspaces (begun s h tid) = workspaces s"
  "cancelled (begun s h tid) = cancelled s - {h}"
  by (auto simp: begun_def split: option.splits)

lemma begun_running:
  "running (begun s h tid) =
     (if h \<notin> cancelled s \<and> tasks_by_id s tid \<noteq> None
      then running s @ [\<lparr>j_id = h, j_taskId = tid\<rparr>] else running s)"
  by (auto simp: begun_def split: option.splits)

lemma tasks_by_id_Some: "tasks_by_id s i = Some t \<Longrightarrow> t_id t = i"
  by (auto simp: tasks_by_id_def dest: find_Some_prop)

lemma begun_events:
  "events (begun s h tid) =
     events s @ [if h \<in> cancelled s then Dropped h
                 else if tasks_by_id s tid = None then Aborted h else ExecuteTask h tid]"
  by (auto simp: begun_def split: option.splits dest: tasks_by_id_Some)

lemma createJob_ids_bounded:
  assumes "ids_bounded s" "createJob s task = Inr (h, s')"
  shows "ids_bounded s'"
proof -
  have q: "priorityQueue s = []" using assms(1) by (simp add: ids_bounded_def)
  note e = createJob_effect[OF q assms(2)]
  show ?thesis
    using assms(1) unfolding e(4) ids_bounded_def begun_fields begun_running begun_events e(1)
    by (auto split: if_splits) (force+)?
qed

lemma cancelJob_fields:
  "priorityQueue (cancelJob s j) = priorityQueue s" "running (cancelJob s j) = running s"
  "fulfilled (cancelJob s j) = fulfilled s" "events (cancelJob s j) = events s"
  "jobIdCounter (cancelJob s j) = jobIdCounter s" "jobs (cancelJob s j) = jobs s"
  "tasks (cancelJob s j) = tasks s" "cancelled (cancelJob s j) = insert j (cancelled s)"
  by (simp_all add: cancelJob_def)

lemma step_ids_bounded:
  assumes "step a s s'" "ids_bounded s"
  shows "ids_bounded s'"
  using assms
proof (cases rule: step.cases)
  case (submit t n h)
  from submit_preserves(1)[where P = ids_bounded, OF createJob_ids_bounded submit(3) assms(2)]
  show ?thesis .
next
  case (cancel jobId)
  with assms(2) show ?thesis by (simp add: ids_bounded_def cancelJob_fields)
next
  case (resume job diags now)
  note f = resume_fields[of s job diags now]
  have "set (remove1 job (running s)) \<subseteq> set (running s)" by (rule set_remove1_subset)
  moreover have "j_id job \<le> jobIdCounter s" using resume(3) assms(2) by (auto simp: ids_bounded_def)
  ultimately show ?thesis
    using assms(2) f(5,6) unfolding resume(2) ids_bounded_def f(1-4)
    by (auto simp: subset_iff; blast)
qed

lemma run_ids_bounded: "run acts s s' \<Longrightarrow> ids_bounded s \<Longrightarrow> ids_bounded s'"
  by (induction rule: run.induct) (auto intro: step_ids_bounded)

lemma fresh_ids_bounded: "ids_bounded (fresh ds ws ts)"
  by (simp add: ids_bounded_def fresh_def)

lemma createJob_cancelled_ahead:
  assumes "cancelled_ahead j s" "createJob s task = Inr (h, s')"
  shows "cancelled_ahead j s'"
proof -
  have q: "priorityQueue s = []" using assms(1) by (simp add: cancelled_ahead_def)
  note e = createJob_effect[OF q assms(2)]
  show ?thesis
    using assms(1) unfolding e(4) cancelled_ahead_def untouched_def begun_fields begun_running
      begun_events e(1)
    by (auto split: if_splits)
qed

lemma step_cancelled_ahead:
  assumes "step a s s'" "cancelled_ahead j s"
  shows "cancelled_ahead j s'"
  using assms
proof (cases rule: step.cases)
  case (submit t n h)
  from submit_preserves(1)[where P = "cancelled_ahead j", OF createJob_cancelled_ahead submit(3) assms(2)]
  show ?thesis .
next
  case (cancel jobId)
  with assms(2) show ?thesis by (simp add: cancelled_ahead_def untouched_def cancelJob_fields)
next
  case (resume job diags now)
  note f = resume_fields[of s job diags now]
  have "set (remove1 job (running s)) \<subseteq> set (running s)" by (rule set_remove1_subset)
  moreover have "j_id job \<noteq> j" using resume(3) assms(2)
    by (auto simp: cancelled_ahead_def untouched_def)
  ultimately show ?thesis
    using assms(2) f(5,6) unfolding resume(2) cancelled_ahead_def untouched_def f(1-4)
    by (auto simp: subset_iff)
qed

lemma run_cancelled_ahead: "run acts s s' \<Longrightarrow> cancelled_ahead j s \<Longrightarrow> cancelled_ahead j s'"
  by (induction rule: run.induct) (auto intro: step_cancelled_ahead)

lemma cancel_ahead:
  assumes "ids_bounded s" "jobIdCounter s < j"
  shows "cancelled_ahead j (cancelJob s j)"
  using assms unfolding ids_bounded_def cancelled_ahead_def untouched_def cancelJob_fields
  by (auto simp: not_le[symmetric])

lemma resume_cancel_commute:
  "processJob_resume (cancelJob s j) job diags now = cancelJob (processJob_resume s job diags now) j"
  unfolding processJob_resume_def cancelJob_def Let_def Job_task_def tasks_by_id_def
    Task_document_def documents_by_id_def store_documents_update_def store_tasks_update_def
  by (auto split: option.splits sum.splits)

lemma find_map_replace:
  assumes "t_id task' = i"
  shows "find (\<lambda>t. t_id t = i) (map (\<lambda>t. if t_id t = i then task' else t) ts) =
         (if find (\<lambda>t. t_id t = i) ts = None then None else Some task')"
  using assms by (induction ts) auto

lemma resume_completes:
  assumes jt: "Job_task s job = Some task"
    and doc: "t_operation task = Audit \<longrightarrow> Task_document s task \<noteq> None"
  shows "fulfilled (processJob_resume s job diags now) = fulfilled s @ [j_id job]"
    and "events (processJob_resume s job diags now) =
           events s @ [Completed (j_id job) (t_id task) now]"
    and "jobs_by_id (processJob_resume s job diags now) (j_id job) = None"
    and "map_option t_lastCompleted (tasks_by_id (processJob_resume s job diags now) (t_id task))
           = Some (Some now)"
proof -
  define s0 where "s0 = s\<lparr>running := remove1 job (running s)\<rparr>"
  have jt0: "Job_task s0 job = Some task"
    using jt by (simp add: s0_def Job_task_def tasks_by_id_def)
  have tid: "t_id task = j_taskId job"
    using jt by (auto simp: Job_task_def dest: tasks_by_id_Some)
  obtain s1 where s1: "(if t_operation task = Audit then
                      (case Task_document s0 task of
                         None \<Rightarrow> Inl IllegalUndefinedValue
                       | Some document \<Rightarrow>
                           store_documents_update s0 (document\<lparr>d_diagnostics := Some diags\<rparr>))
                    else Inr s0) = Inr s1"
    and keep: "tasks s1 = tasks s" "fulfilled s1 = fulfilled s" "events s1 = events s"
      "jobs s1 = jobs s"
  proof (cases "t_operation task = Audit")
    case False
    then show ?thesis using that[of s0] by (simp add: s0_def)
  next
    case True
    with doc obtain d where d: "Task_document s task = Some d" by auto
    then have d0: "Task_document s0 task = Some d"
      by (simp add: s0_def Task_document_def documents_by_id_def split: option.splits)
    from d have "documents_by_id s0 (d_id d) \<noteq> None"
      by (auto simp: s0_def Task_document_def documents_by_id_def split: option.splits
          dest: find_Some_prop)
    then show ?thesis
      using that[of "s0\<lparr>documents := map (\<lambda>x. if d_id x = d_id d
          then d\<lparr>d_diagnostics := Some diags\<rparr> else x) (documents s0)\<rparr>"] True d0
      by (simp add: store_documents_update_def s0_def)
  qed
  have tb: "tasks_by_id s1 (t_id task) \<noteq> None"
    using jt tid by (simp add: Job_task_def tasks_by_id_def keep)
  define s2 where "s2 = s1\<lparr>tasks := map (\<lambda>t. if t_id t = t_id task
      then task\<lparr>t_lastCompleted := Some now\<rparr> else t) (tasks s1)\<rparr>"
  have tu: "store_tasks_update s1 (task\<lparr>t_lastCompleted := Some now\<rparr>) = Inr s2"
    using tb by (simp add: store_tasks_update_def s2_def)
  have res: "processJob_resume s job diags now =
        s2\<lparr>fulfilled := fulfilled s2 @ [j_id job],
           jobs := filter (\<lambda>j. j_id j \<noteq> j_id job) (jobs s2),
           events := events s2 @ [Completed (j_id job) (t_id task) now]\<rparr>"
    unfolding processJob_resume_def Let_def s0_def[symmetric] jt0
    using s1 tu by simp
  show "fulfilled (processJob_resume s job diags now) = fulfilled s @ [j_id job]"
    unfolding res by (simp add: s2_def keep)
  show "events (processJob_resume s job diags now) =
           events s @ [Completed (j_id job) (t_id task) now]"
    unfolding res by (simp add: s2_def keep)
  show "jobs_by_id (processJob_resume s job diags now) (j_id job) = None"
    unfolding res by (simp add: jobs_by_id_def find_None_iff2)
  have "tasks_by_id (processJob_resume s job diags now) (t_id task) =
        Some (task\<lparr>t_lastCompleted := Some now\<rparr>)"
    unfolding res using tb
    by (simp add: tasks_by_id_def s2_def find_map_replace)
  then show "map_option t_lastCompleted
      (tasks_by_id (processJob_resume s job diags now) (t_id task)) = Some (Some now)"
    by simp
qed

subsection \<open>Two runs on the small store\<close>

text \<open>Claim C2, evaluated on the code. Task 2 lists task 1 among its dependencies and neither
  is scheduled. Submitting task 2 submits task 1 first, but each submission pops its job at
  once and enters \<open>executeTask\<close> before it returns: when \<open>submitTask\<close> returns, the unit of
  work of task 2 has begun, both runs are suspended, and task 1 has no \<open>lastCompleted\<close> yet.
  The stamp of task 1 comes only when its run resumes, after the start of task 2.\<close>

theorem dependent_begins_before_dependency_completes:
  "(case submitTask 2 server0 (ByTask taskB) of
      Some (Inr (h, s)) \<Rightarrow>
        h = 2
        \<and> events s = [ExecuteTask 1 1, ExecuteTask 2 2]
        \<and> running s = [\<lparr>j_id = 1, j_taskId = 1\<rparr>, \<lparr>j_id = 2, j_taskId = 2\<rparr>]
        \<and> map t_lastCompleted (tasks s) = [None, None]
        \<and> events (processJob_resume s \<lparr>j_id = 1, j_taskId = 1\<rparr> [] 7) =
            [ExecuteTask 1 1, ExecuteTask 2 2, Completed 1 1 7]
        \<and> map t_lastCompleted (tasks (processJob_resume s \<lparr>j_id = 1, j_taskId = 1\<rparr> [] 7)) =
            [Some 7, None]
    | _ \<Rightarrow> False)"
  unfolding server0_def docA_def docB_def wsW_def taskA_def taskB_def
  by code_simp

subsection \<open>Cancellation\<close>

lemmas example_defs = server0_def docA_def docB_def wsW_def taskA_def taskB_def
  server_dropped_def server_running_def

lemma submit_dropped:
  "submitTask 1 (cancelJob server0 1) (ByTask taskA) = Some (Inr (1, server_dropped))"
  unfolding example_defs by code_simp

lemma submit_running:
  "submitTask 1 server0 (ByTask taskA) = Some (Inr (1, server_running))"
  unfolding example_defs by code_simp

lemma taskA_stored: "tasks_by_id server0 (t_id taskA) = Some taskA"
  unfolding example_defs by code_simp

lemma taskA_stored_cancelled: "tasks_by_id (cancelJob server0 1) (t_id taskA) = Some taskA"
  unfolding example_defs by code_simp

text \<open>Claim C3. Between calls the queue is empty, so an id that has not been popped is an id
  that the counter has not given out yet. If \<open>cancelJob(j)\<close> is called for such an id, then
  whatever happens afterwards job \<open>j\<close> never enters \<open>executeTask\<close>, no run of it is ever
  suspended and its promise is never fulfilled (nothing rejects promises); whenever a cancelled
  id is popped, \<open>processJob\<close> only drops it. If \<open>cancelJob\<close> is called for a job whose run has
  begun, the run resumes exactly as it would have without the call, and when the task (and,
  for an audit, its document) is in the store it completes: the promise is fulfilled.\<close>

theorem cancelJob_before_and_after_pop:
  "(run acts0 (fresh ds ws ts) s \<longrightarrow> priorityQueue s = [])
   \<and> (run acts0 (fresh ds ws ts) s \<and> jobIdCounter s < j \<and> run acts (cancelJob s j) s'
        \<longrightarrow> untouched j s')
   \<and> (j \<in> cancelled s \<longrightarrow>
        running (processJob_begin s (Some j)) = running s \<and>
        fulfilled (processJob_begin s (Some j)) = fulfilled s \<and>
        events (processJob_begin s (Some j)) = events s @ [Dropped j])
   \<and> processJob_resume (cancelJob s (j_id job)) job diags now =
        cancelJob (processJob_resume s job diags now) (j_id job)
   \<and> (Job_task s job = Some task \<and> (t_operation task = Audit \<longrightarrow> Task_document s task \<noteq> None)
        \<longrightarrow> fulfilled (processJob_resume (cancelJob s (j_id job)) job diags now) =
              fulfilled s @ [j_id job]
          \<and> events (processJob_resume (cancelJob s (j_id job)) job diags now) =
              events s @ [Completed (j_id job) (t_id task) now])"
proof (intro conjI impI)
  assume "run acts0 (fresh ds ws ts) s"
  then have "ids_bounded s" by (rule run_ids_bounded) (rule fresh_ids_bounded)
  then show "priorityQueue s = []" by (simp add: ids_bounded_def)
next
  assume a: "run acts0 (fresh ds ws ts) s \<and> jobIdCounter s < j \<and> run acts (cancelJob s j) s'"
  then have "ids_bounded s" by (auto intro: run_ids_bounded fresh_ids_bounded)
  with a have "cancelled_ahead j (cancelJob s j)" by (auto intro: cancel_ahead)
  with a have "cancelled_ahead j s'" by (auto intro: run_cancelled_ahead)
  then show "untouched j s'" by (simp add: cancelled_ahead_def)
next
  assume "j \<in> cancelled s"
  then show "running (processJob_begin s (Some j)) = running s"
    "fulfilled (processJob_begin s (Some j)) = fulfilled s"
    "events (processJob_begin s (Some j)) = events s @ [Dropped j]"
    by (simp_all add: processJob_begin_def)
next
  show "processJob_resume (cancelJob s (j_id job)) job diags now =
        cancelJob (processJob_resume s job diags now) (j_id job)"
    by (rule resume_cancel_commute)
next
  assume a: "Job_task s job = Some task \<and>
             (t_operation task = Audit \<longrightarrow> Task_document s task \<noteq> None)"
  note c = resume_completes[of s job task, OF conjunct1[OF a] conjunct2[OF a]]
  show "fulfilled (processJob_resume (cancelJob s (j_id job)) job diags now) =
              fulfilled s @ [j_id job]"
    "events (processJob_resume (cancelJob s (j_id job)) job diags now) =
              events s @ [Completed (j_id job) (t_id task) now]"
    unfolding resume_cancel_commute cancelJob_fields by (rule c(1), rule c(2))
qed

theorem cancelJob_before_and_after_pop_witness:
  "run [] (fresh [docA, docB] [wsW] [taskA, taskB]) server0
   \<and> jobIdCounter server0 < 1
   \<and> run [Submit taskA] (cancelJob server0 1) server_dropped
   \<and> untouched 1 server_dropped
   \<and> Job_task server_running \<lparr>j_id = 1, j_taskId = 1\<rparr> = Some taskA
   \<and> Task_document server_running taskA \<noteq> None
   \<and> fulfilled (processJob_resume (cancelJob server_running 1) \<lparr>j_id = 1, j_taskId = 1\<rparr> [] 7) = [1]"
proof -
  have r0: "run [] (fresh [docA, docB] [wsW] [taskA, taskB]) server0"
    unfolding server0_def by (rule run.idle)
  have c: "jobIdCounter server0 < 1" by (simp add: server0_def fresh_def)
  have "run ([] @ [Submit taskA]) (cancelJob server0 1) server_dropped"
    by (rule run.then_step[OF run.idle step.submit[OF taskA_stored_cancelled submit_dropped]])
  then have r1: "run [Submit taskA] (cancelJob server0 1) server_dropped" by simp
  have jt: "Job_task server_running \<lparr>j_id = 1, j_taskId = 1\<rparr> = Some taskA"
    unfolding example_defs by code_simp
  have td: "Task_document server_running taskA \<noteq> None"
    unfolding example_defs by code_simp
  have f0: "fulfilled server_running = []" by (simp add: example_defs fresh_def)
  from cancelJob_before_and_after_pop[of "[]" "[docA, docB]" "[wsW]" "[taskA, taskB]" server0 1
      "[Submit taskA]" server_dropped "\<lparr>j_id = 1, j_taskId = 1\<rparr>" "[]" 7 taskA]
    r0 c r1
  have u: "untouched 1 server_dropped" by blast
  have "Job_task server_running \<lparr>j_id = 1, j_taskId = 1\<rparr> = Some taskA \<and>
          (t_operation taskA = Audit \<longrightarrow> Task_document server_running taskA \<noteq> None)
        \<longrightarrow> fulfilled (processJob_resume (cancelJob server_running (j_id \<lparr>j_id = 1, j_taskId = 1\<rparr>))
                \<lparr>j_id = 1, j_taskId = 1\<rparr> [] 7) =
              fulfilled server_running @ [j_id \<lparr>j_id = 1, j_taskId = 1\<rparr>]"
    using cancelJob_before_and_after_pop[of "[]" "[docA, docB]" "[wsW]" "[taskA, taskB]"
      server_running 1 "[]" server_dropped "\<lparr>j_id = 1, j_taskId = 1\<rparr>" "[]" 7 taskA]
    by blast
  with jt td have "fulfilled (processJob_resume (cancelJob server_running (j_id \<lparr>j_id = 1, j_taskId = 1\<rparr>))
                \<lparr>j_id = 1, j_taskId = 1\<rparr> [] 7) =
              fulfilled server_running @ [j_id \<lparr>j_id = 1, j_taskId = 1\<rparr>]"
    by blast
  then have "fulfilled (processJob_resume (cancelJob server_running 1) \<lparr>j_id = 1, j_taskId = 1\<rparr> [] 7) = [1]"
    by (simp add: f0)
  with r0 c r1 u jt td show ?thesis by blast
qed

subsection \<open>One job per task\<close>

lemma submit_existing:
  "Task_job s t = Some job \<Longrightarrow> submitTask (Suc n) s (ByTask t) = Some (Inr (j_id job, s))"
  by simp

lemma find_filter_keep:
  "find P xs = Some x \<Longrightarrow> Q x \<Longrightarrow> find P (filter Q xs) = Some x"
  by (induction xs) (auto split: if_splits)

lemma createJob_job_held:
  assumes "job_held h tid ev0 s" "createJob s task = Inr (h', s')"
  shows "job_held h tid ev0 s'"
proof -
  have q: "priorityQueue s = []" using assms(1) by (simp add: job_held_def)
  note e = createJob_effect[OF q assms(2)]
  from assms(1) obtain job ev where j: "jobs_by_taskId s tid = Some job" "j_id job = h"
    and ev: "events s = ev0 @ ev" "\<not> list_ex (executes tid) ev"
    by (auto simp: job_held_def)
  have ne: "t_id task \<noteq> tid" using e(2) j(1) by auto
  have "jobs_by_taskId s' tid = Some job"
    unfolding e(4) using j(1) by (simp add: jobs_by_taskId_def begun_fields find_append)
  moreover have "events s' = ev0 @ (ev @ [if h' \<in> cancelled s then Dropped h'
                 else if tasks_by_id s (t_id task) = None then Aborted h'
                 else ExecuteTask h' (t_id task)])"
    unfolding e(4) begun_events ev by simp
  moreover have "\<not> list_ex (executes tid) (ev @ [if h' \<in> cancelled s then Dropped h'
                 else if tasks_by_id s (t_id task) = None then Aborted h'
                 else ExecuteTask h' (t_id task)])"
    using ev(2) ne by (auto simp: list_ex_iff)
  ultimately show ?thesis
    unfolding job_held_def using j(2) q e(4) by (auto simp: begun_fields)
qed

lemma step_job_held:
  assumes "step a s s'" "job_held h tid ev0 s" "\<not> resumes h a"
  shows "job_held h tid ev0 s'"
  using assms(1)
proof (cases rule: step.cases)
  case (submit t n h')
  from submit_preserves(1)[where P = "job_held h tid ev0", OF createJob_job_held submit(3) assms(2)]
  show ?thesis .
next
  case (cancel jobId)
  with assms(2) show ?thesis by (simp add: job_held_def cancelJob_fields jobs_by_taskId_def)
next
  case (resume job diags now)
  note f = resume_fields[of s job diags now]
  from assms(2) obtain jb ev where j: "jobs_by_taskId s tid = Some jb" "j_id jb = h"
    and ev: "events s = ev0 @ ev" "\<not> list_ex (executes tid) ev"
    and q: "priorityQueue s = []"
    by (auto simp: job_held_def)
  have ne: "j_id job \<noteq> h" using assms(3) resume(1) by simp
  have "find (\<lambda>j. j_taskId j = tid) (filter (\<lambda>j. j_id j \<noteq> j_id job) (jobs s)) = Some jb"
    by (rule find_filter_keep) (use j ne in \<open>auto simp: jobs_by_taskId_def\<close>)
  then have "jobs_by_taskId s' tid = Some jb"
    using f(7) j unfolding resume(2) jobs_by_taskId_def by auto
  moreover have "\<exists>e. events s' = ev0 @ (ev @ [e]) \<and> \<not> executes tid e"
    using f(6) unfolding resume(2) ev by auto
  then have "\<exists>ev'. events s' = ev0 @ ev' \<and> \<not> list_ex (executes tid) ev'"
    using ev(2) by (auto simp: list_ex_iff)
  ultimately show ?thesis
    unfolding job_held_def using j(2) q f(1) resume(2) by auto
qed

lemma run_job_held:
  "run acts s s' \<Longrightarrow> job_held h tid ev0 s \<Longrightarrow> \<not> list_ex (resumes h) acts \<Longrightarrow>
   job_held h tid ev0 s'"
  by (induction rule: run.induct) (auto intro: step_job_held)

lemma createJob_queue_empty:
  "priorityQueue s = [] \<Longrightarrow> createJob s task = Inr (h, s') \<Longrightarrow> priorityQueue s' = []"
  using createJob_effect(4)[of s task h s'] by (simp add: begun_fields)

lemma first_submit_held:
  assumes q: "priorityQueue s = []"
    and sub: "submitTask n s (ByTask t) = Some (Inr (h, s1))"
  shows "job_held h (t_id t) (events s1) s1"
proof -
  obtain n' where n: "n = Suc n'" using sub by (cases n) auto
  have q1: "priorityQueue s1 = []"
    by (rule submit_preserves(1)[where P = "\<lambda>s. priorityQueue s = []", OF _ sub q])
       (rule createJob_queue_empty)
  have "\<exists>job. jobs_by_taskId s1 (t_id t) = Some job \<and> j_id job = h"
  proof (cases "Task_job s t")
    case (Some job)
    with sub n show ?thesis by (auto simp: Task_job_def)
  next
    case None
    with sub n obtain sd where d: "submitDependencies n' s (Task_dependencies s t) = Some (Inr sd)"
      and c: "createJob sd t = Inr (h, s1)"
      by (auto split: option.splits sum.splits)
    have qd: "priorityQueue sd = []"
      by (rule submit_preserves(2)[where P = "\<lambda>s. priorityQueue s = []", OF _ d q])
         (rule createJob_queue_empty)
    note e = createJob_effect[OF qd c]
    show ?thesis
      unfolding e(4) using e(2)
      by (simp add: jobs_by_taskId_def begun_fields find_append)
  qed
  with q1 show ?thesis by (simp add: job_held_def)
qed

lemma createJob_deps_inv:
  assumes "deps_inv s tid s'" "createJob s' task = Inr (h, s'')"
  shows "deps_inv s tid s''"
proof -
  have q: "priorityQueue s' = []" using assms(1) by (simp add: deps_inv_def)
  note e = createJob_effect[OF q assms(2)]
  from assms(1) obtain ev where ev: "events s' = events s @ ev"
    "list_ex (executes tid) ev \<longrightarrow> jobs_by_taskId s' tid \<noteq> None"
    by (auto simp: deps_inv_def)
  define x where "x = (if h \<in> cancelled s' then Dropped h
                 else if tasks_by_id s' (t_id task) = None then Aborted h
                 else ExecuteTask h (t_id task))"
  have e1: "events s'' = events s @ (ev @ [x])"
    unfolding e(4) begun_events ev x_def by simp
  have "list_ex (executes tid) (ev @ [x]) \<longrightarrow> jobs_by_taskId s'' tid \<noteq> None"
  proof
    assume "list_ex (executes tid) (ev @ [x])"
    then consider "list_ex (executes tid) ev" | "executes tid x" by (auto simp: list_ex_iff)
    then show "jobs_by_taskId s'' tid \<noteq> None"
    proof cases
      case 1
      with ev(2) show ?thesis
        unfolding e(4) by (auto simp: jobs_by_taskId_def begun_fields find_append)
    next
      case 2
      then have "t_id task = tid" by (auto simp: x_def split: if_splits)
      then show ?thesis
        unfolding e(4) by (auto simp: jobs_by_taskId_def begun_fields find_append split: option.splits)
    qed
  qed
  with e1 show ?thesis
    using assms(1) unfolding deps_inv_def e(4) begun_fields e(1) by auto
qed

lemma first_submit_executes:
  assumes q: "priorityQueue s = []"
    and stored: "tasks_by_id s (t_id t) = Some t"
    and nj: "Task_job s t = None"
    and nc: "\<forall>j \<in> cancelled s. j \<le> jobIdCounter s"
    and sub: "submitTask n s (ByTask t) = Some (Inr (h, s1))"
  shows "\<exists>ev. events s1 = events s @ ev @ [ExecuteTask h (t_id t)] \<and>
              \<not> list_ex (executes (t_id t)) ev"
proof -
  obtain n' where n: "n = Suc n'" using sub by (cases n) auto
  from sub n nj obtain sd where d: "submitDependencies n' s (Task_dependencies s t) = Some (Inr sd)"
    and c: "createJob sd t = Inr (h, s1)"
    by (auto split: option.splits sum.splits)
  have base: "deps_inv s (t_id t) s" using q by (simp add: deps_inv_def)
  have di: "deps_inv s (t_id t) sd"
    by (rule submit_preserves(2)[where P = "deps_inv s (t_id t)", OF _ d base])
       (rule createJob_deps_inv)
  then have qd: "priorityQueue sd = []" by (simp add: deps_inv_def)
  note e = createJob_effect[OF qd c]
  from di obtain ev where ev: "events sd = events s @ ev"
    "list_ex (executes (t_id t)) ev \<longrightarrow> jobs_by_taskId sd (t_id t) \<noteq> None"
    and ts: "tasks sd = tasks s" and cs: "cancelled sd \<subseteq> cancelled s"
    and cn: "jobIdCounter s \<le> jobIdCounter sd"
    by (auto simp: deps_inv_def)
  have nex: "\<not> list_ex (executes (t_id t)) ev" using ev(2) e(2) by auto
  have "h \<notin> cancelled sd"
  proof
    assume "h \<in> cancelled sd"
    then have "h \<le> jobIdCounter s" using cs nc by auto
    with cn e(1) show False by simp
  qed
  moreover have "tasks_by_id sd (t_id t) \<noteq> None"
    using stored ts by (simp add: tasks_by_id_def)
  ultimately have "events s1 = events s @ ev @ [ExecuteTask h (t_id t)]"
    unfolding e(4) begun_events ev by simp
  with nex show ?thesis by blast
qed

text \<open>Claim C1. If the task has a job in the store, \<open>submitTask\<close> returns the promise of that
  job and changes nothing: no new job, no execution. If \<open>submitTask\<close> has returned the promise
  \<open>h\<close> for a task and then anything happens except the resumption of the run of job \<open>h\<close>
  (submissions, cancellations, other runs resuming), a second \<open>submitTask\<close> of the task returns
  the same promise \<open>h\<close> and changes nothing. And when the first submission created the job
  (the task had none, is in the store, and no id beyond the counter is cancelled), then from
  that submission on \<open>executeTask\<close> is entered for the task exactly once, for job \<open>h\<close>.\<close>

theorem submitTask_shares_handle:
  "(Task_job s t = Some job \<longrightarrow> submitTask (Suc n) s (ByTask t) = Some (Inr (j_id job, s)))
   \<and> (priorityQueue s = [] \<and> submitTask n s (ByTask t) = Some (Inr (h, s1)) \<and>
       run acts s1 s2 \<and> \<not> list_ex (resumes h) acts
        \<longrightarrow> submitTask (Suc m) s2 (ByTask t) = Some (Inr (h, s2)))
   \<and> (priorityQueue s = [] \<and> tasks_by_id s (t_id t) = Some t \<and> Task_job s t = None \<and>
       (\<forall>j \<in> cancelled s. j \<le> jobIdCounter s) \<and>
       submitTask n s (ByTask t) = Some (Inr (h, s1)) \<and>
       run acts s1 s2 \<and> \<not> list_ex (resumes h) acts
        \<longrightarrow> filter (executes (t_id t)) (drop (length (events s)) (events s2)) =
              [ExecuteTask h (t_id t)])"
proof (intro conjI impI)
  assume "Task_job s t = Some job"
  then show "submitTask (Suc n) s (ByTask t) = Some (Inr (j_id job, s))" by simp
next
  assume a: "priorityQueue s = [] \<and> submitTask n s (ByTask t) = Some (Inr (h, s1)) \<and>
       run acts s1 s2 \<and> \<not> list_ex (resumes h) acts"
  then have "job_held h (t_id t) (events s1) s1" by (auto intro: first_submit_held)
  with a have "job_held h (t_id t) (events s1) s2" by (auto intro: run_job_held)
  then obtain job where "Task_job s2 t = Some job" "j_id job = h"
    by (auto simp: job_held_def Task_job_def)
  then show "submitTask (Suc m) s2 (ByTask t) = Some (Inr (h, s2))" by simp
next
  assume a: "priorityQueue s = [] \<and> tasks_by_id s (t_id t) = Some t \<and> Task_job s t = None \<and>
       (\<forall>j \<in> cancelled s. j \<le> jobIdCounter s) \<and>
       submitTask n s (ByTask t) = Some (Inr (h, s1)) \<and>
       run acts s1 s2 \<and> \<not> list_ex (resumes h) acts"
  then obtain ev where ev: "events s1 = events s @ ev @ [ExecuteTask h (t_id t)]"
      "\<not> list_ex (executes (t_id t)) ev"
    using first_submit_executes[of s t n h s1] by blast
  from a have "job_held h (t_id t) (events s1) s1" by (auto intro: first_submit_held)
  with a have "job_held h (t_id t) (events s1) s2" by (auto intro: run_job_held)
  then obtain ev2 where ev2: "events s2 = events s1 @ ev2" "\<not> list_ex (executes (t_id t)) ev2"
    by (auto simp: job_held_def)
  have "drop (length (events s)) (events s2) = ev @ [ExecuteTask h (t_id t)] @ ev2"
    unfolding ev2 ev by simp
  then show "filter (executes (t_id t)) (drop (length (events s)) (events s2)) =
              [ExecuteTask h (t_id t)]"
    using ev(2) ev2(2) by (simp add: list_ex_iff filter_empty_conv)
qed

theorem submitTask_shares_handle_witness:
  "priorityQueue server0 = [] \<and> tasks_by_id server0 (t_id taskA) = Some taskA
   \<and> Task_job server0 taskA = None \<and> cancelled server0 = {}
   \<and> submitTask 1 server0 (ByTask taskA) = Some (Inr (1, server_running))
   \<and> run [Cancel 5] server_running (cancelJob server_running 5)
   \<and> submitTask 1 (cancelJob server_running 5) (ByTask taskA) =
        Some (Inr (1, cancelJob server_running 5))
   \<and> filter (executes (t_id taskA))
        (drop (length (events server0)) (events (cancelJob server_running 5))) =
        [ExecuteTask 1 (t_id taskA)]"
proof -
  have q: "priorityQueue server0 = []" by (simp add: server0_def fresh_def)
  have nj: "Task_job server0 taskA = None"
    by (simp add: server0_def fresh_def Task_job_def jobs_by_taskId_def)
  have nc: "\<forall>j \<in> cancelled server0. j \<le> jobIdCounter server0"
    by (simp add: server0_def fresh_def)
  have "run ([] @ [Cancel 5]) server_running (cancelJob server_running 5)"
    by (rule run.then_step[OF run.idle step.cancel])
  then have r: "run [Cancel 5] server_running (cancelJob server_running 5)" by simp
  have nr: "\<not> list_ex (resumes 1) [Cancel 5]" by simp
  note th = submitTask_shares_handle[where s = server0 and t = taskA and n = 1 and h = 1
      and ?s1.0 = server_running and acts = "[Cancel 5]" and ?s2.0 = "cancelJob server_running 5"
      and m = 0]
  from th q submit_running r nr
  have b: "submitTask (Suc 0) (cancelJob server_running 5) (ByTask taskA) =
        Some (Inr (1, cancelJob server_running 5))"
    by blast
  from th q taskA_stored nj nc submit_running r nr
  have c: "filter (executes (t_id taskA))
        (drop (length (events server0)) (events (cancelJob server_running 5))) =
        [ExecuteTask 1 (t_id taskA)]"
    by blast
  have ce: "cancelled server0 = {}" by (simp add: server0_def fresh_def)
  from q taskA_stored nj ce submit_running r b c show ?thesis by simp
qed

subsection \<open>At most one job per task\<close>

lemma createJob_jobs_unique:
  assumes "jobs_unique s" "createJob s task = Inr (h, s')"
  shows "jobs_unique s'"
proof -
  have q: "priorityQueue s = []" using assms(1) by (simp add: jobs_unique_def)
  note e = createJob_effect[OF q assms(2)]
  have "h \<notin> j_id ` set (jobs s)"
    using e(3) by (auto simp: jobs_by_id_def find_None_iff2)
  moreover have "t_id task \<notin> j_taskId ` set (jobs s)"
    using e(2) by (auto simp: jobs_by_taskId_def find_None_iff2)
  ultimately show ?thesis
    using assms(1) unfolding e(4) jobs_unique_def begun_fields by auto
qed

lemma step_jobs_unique:
  assumes "step a s s'" "jobs_unique s"
  shows "jobs_unique s'"
  using assms(1)
proof (cases rule: step.cases)
  case (submit t n h)
  from submit_preserves(1)[where P = jobs_unique, OF createJob_jobs_unique submit(3) assms(2)]
  show ?thesis .
next
  case (cancel jobId)
  with assms(2) show ?thesis by (simp add: jobs_unique_def cancelJob_fields)
next
  case (resume job diags now)
  note f = resume_fields[of s job diags now]
  from f(7) assms(2) show ?thesis
    unfolding resume(2) jobs_unique_def f(1)
    by (auto simp: distinct_map_filter)
qed

lemma run_jobs_unique: "run acts s s' \<Longrightarrow> jobs_unique s \<Longrightarrow> jobs_unique s'"
  by (induction rule: run.induct) (auto intro: step_jobs_unique)

lemma one_job_per_task:
  assumes "run acts (fresh ds ws ts) s"
  shows "distinct (map j_taskId (jobs s))" and "distinct (map j_id (jobs s))"
proof -
  have "jobs_unique (fresh ds ws ts)" by (simp add: jobs_unique_def fresh_def)
  with assms have "jobs_unique s" by (rule run_jobs_unique)
  then show "distinct (map j_taskId (jobs s))" and "distinct (map j_id (jobs s))"
    by (simp_all add: jobs_unique_def)
qed

section \<open>Closing documents\<close>

lemma dropWorkspace_single_file_example:
  "onDidCloseTextDocument
     (fresh [docA\<lparr>d_uri := ''file:///x.rst'', d_workspaceId := 3\<rparr>]
            [\<lparr>w_id = 3, w_uri = ''file:///x.rst'', w_cache = []\<rparr>] [taskA] :: unit Server)
     ''file:///x.rst'' = Inr (fresh [] [] [])"
  unfolding example_defs by code_simp

text \<open>Claim C8, evaluated on the code. In a multi-file workspace with \<open>a.rst\<close> open (state
  \<open>editing\<close>) and \<open>b.rst\<close> not open (state \<open>indexing\<close>), closing \<open>a.rst\<close>, the last open
  document, does not destroy the workspace: it only sets the state of \<open>a.rst\<close> to \<open>indexing\<close>.
  Closing \<open>b.rst\<close> instead, while \<open>a.rst\<close> is still open, destroys the workspace with its
  documents and tasks. The test of the handler reads the state of the closed document where
  it should read the state of each other document.\<close>

theorem close_last_open_document_keeps_workspace:
  "d_state docA = editing \<and> d_state docB = indexing
   \<and> Workspace_documents server0 wsW = [docA, docB]
   \<and> Workspace_type wsW = multi_file
   \<and> onDidCloseTextDocument server0 ''file:///w/a.rst'' =
       Inr (server0\<lparr>documents := [docA\<lparr>d_state := indexing\<rparr>, docB]\<rparr>)
   \<and> onDidCloseTextDocument server0 ''file:///w/b.rst'' =
       Inr (server0\<lparr>documents := [], workspaces := [], tasks := []\<rparr>)"
  unfolding example_defs by code_simp

section \<open>Jobs in the store\<close>

lemma createJob_jobs_inv:
  assumes "jobs_inv s" "createJob s task = Inr (h, s')"
  shows "jobs_inv s'"
proof -
  have q: "priorityQueue s = []" using assms(1) by (simp add: jobs_inv_def)
  note e = createJob_effect[OF q assms(2)]
  have nc: "h \<notin> cancelled s" using assms(1) e(1) by (auto simp: jobs_inv_def)
  have nf: "h \<notin> set (fulfilled s)" using assms(1) e(1) by (auto simp: jobs_inv_def)
  have nt: "t_id task \<notin> j_taskId ` set (jobs s)"
    using e(2) by (auto simp: jobs_by_taskId_def find_None_iff2)
  have c: "cancelled s - {h} = cancelled s" using nc by simp
  have b: "\<And>i. i \<le> jobIdCounter s \<Longrightarrow> i \<le> h" using e(1) by simp
  show ?thesis
    using assms(1) nc nf nt b
    unfolding e(4) jobs_inv_def begun_fields begun_running begun_events c
    by (auto split: if_splits)
qed

lemma resume_cases:
  fixes s :: "'o Server" and job diags now
  defines "s' \<equiv> processJob_resume s job diags now"
  shows "(fulfilled s' = fulfilled s \<and> jobs s' = jobs s \<and>
          events s' = events s @ [Aborted (j_id job)]) \<or>
         (fulfilled s' = fulfilled s @ [j_id job] \<and>
          jobs s' = filter (\<lambda>j. j_id j \<noteq> j_id job) (jobs s) \<and>
          (\<exists>tid. events s' = events s @ [Completed (j_id job) tid now]))"
  unfolding s'_def processJob_resume_def Let_def store_documents_update_def store_tasks_update_def
  by (auto split: option.splits sum.splits if_splits simp: Job_task_def tasks_by_id_def
      Task_document_def documents_by_id_def)

lemma resume_jobs_inv:
  assumes "jobs_inv s" "job \<in> set (running s)"
  shows "jobs_inv (processJob_resume s job diags now)"
proof -
  note f = resume_fields[of s job diags now]
  have sub: "set (remove1 job (running s)) \<subseteq> set (running s)" by (rule set_remove1_subset)
  have jb: "j_id job \<le> jobIdCounter s" using assms by (auto simp: jobs_inv_def)
  from resume_cases[of s job diags now] show ?thesis
  proof (elim disjE conjE exE)
    assume "fulfilled (processJob_resume s job diags now) = fulfilled s"
      "jobs (processJob_resume s job diags now) = jobs s"
      "events (processJob_resume s job diags now) = events s @ [Aborted (j_id job)]"
    then show ?thesis
      using assms(1) sub unfolding jobs_inv_def f(1-4) by (auto simp: subset_iff)
  next
    fix tid
    assume "fulfilled (processJob_resume s job diags now) = fulfilled s @ [j_id job]"
      "jobs (processJob_resume s job diags now) = filter (\<lambda>j. j_id j \<noteq> j_id job) (jobs s)"
      "events (processJob_resume s job diags now) = events s @ [Completed (j_id job) tid now]"
    then show ?thesis
      using assms(1) sub jb unfolding jobs_inv_def f(1-4)
      by (auto simp: subset_iff distinct_map_filter)
  qed
qed

lemma dropTask_jobs_inv:
  assumes "jobs_inv s"
  shows "jobs_inv (dropTask s task)"
proof (cases "Task_job s task")
  case None
  then show ?thesis using assms by (simp add: dropTask_def jobs_inv_def)
next
  case (Some job)
  then have "job \<in> set (jobs s)"
    by (auto simp: Task_job_def jobs_by_taskId_def dest: find_Some_prop)
  then have "j_id job \<le> jobIdCounter s" using assms by (auto simp: jobs_inv_def)
  then show ?thesis
    using assms Some
    by (auto simp: dropTask_def jobs_inv_def cancelJob_def Let_def distinct_map_filter)
qed

lemma fold_dropTask_jobs_inv:
  "jobs_inv s \<Longrightarrow> jobs_inv (fold (\<lambda>task st. dropTask st task) tsks s)"
  by (induction tsks arbitrary: s) (simp_all add: dropTask_jobs_inv)

lemma dropDocument_jobs_inv:
  assumes "jobs_inv s" "dropDocument s docRef = Inr s'"
  shows "jobs_inv s'"
proof -
  from assms(2) obtain doc where
    s': "s' = (fold (\<lambda>task st. dropTask st task) (Document_tasks s doc) s)
              \<lparr>documents := filter (\<lambda>d. d_id d \<noteq> d_id doc)
                 (documents (fold (\<lambda>task st. dropTask st task) (Document_tasks s doc) s))\<rparr>"
    by (auto simp: dropDocument_def Let_def split: sum.splits)
  have "jobs_inv (fold (\<lambda>task st. dropTask st task) (Document_tasks s doc) s)"
    using assms(1) by (rule fold_dropTask_jobs_inv)
  then show ?thesis unfolding s' by (simp add: jobs_inv_def)
qed

lemma dropDocuments_jobs_inv:
  "jobs_inv s \<Longrightarrow> dropDocuments s docs = Inr s' \<Longrightarrow> jobs_inv s'"
proof (induction docs arbitrary: s)
  case Nil
  then show ?case by simp
next
  case (Cons doc docs)
  from Cons(3) obtain s1 where a: "dropDocument s (DocObject doc) = Inr s1"
    and b: "dropDocuments s1 docs = Inr s'"
    by (auto split: sum.splits)
  from dropDocument_jobs_inv[OF Cons(2) a] have "jobs_inv s1" .
  from Cons(1)[OF this b] show ?case .
qed

lemma dropWorkspace_jobs_inv:
  assumes "jobs_inv s" "dropWorkspace s wsRef = Inr s'"
  shows "jobs_inv s'"
proof -
  from assms(2) obtain workspace s1 where
    a: "dropDocuments s (Workspace_documents s workspace) = Inr s1"
    and s': "s' = s1\<lparr>workspaces := filter (\<lambda>w. w_id w \<noteq> w_id workspace) (workspaces s1)\<rparr>"
    by (auto simp: dropWorkspace_def split: sum.splits)
  from dropDocuments_jobs_inv[OF assms(1) a] show ?thesis
    unfolding s' by (simp add: jobs_inv_def)
qed

lemma onDidCloseTextDocument_jobs_inv:
  assumes "jobs_inv s" "onDidCloseTextDocument s uri = Inr s'"
  shows "jobs_inv s'"
proof -
  from assms(2) consider wsRef where "dropWorkspace s wsRef = Inr s'"
    | doc where "store_documents_update s doc = Inr s'"
    by (auto simp: onDidCloseTextDocument_def Let_def split: option.splits sum.splits if_splits)
  then show ?thesis
  proof cases
    case 1
    from dropWorkspace_jobs_inv[OF assms(1) this] show ?thesis .
  next
    case 2
    then show ?thesis using assms(1)
      by (auto simp: store_documents_update_def jobs_inv_def split: if_splits)
  qed
qed

lemma server_step_jobs_inv:
  assumes "server_step a s s'" "jobs_inv s"
  shows "jobs_inv s'"
  using assms(1)
proof (cases rule: server_step.cases)
  case (submit_task t n h)
  from submit_preserves(1)[where P = jobs_inv, OF createJob_jobs_inv submit_task(3) assms(2)]
  show ?thesis .
next
  case (resume_job job diags now)
  from resume_jobs_inv[OF assms(2) resume_job(3)] show ?thesis unfolding resume_job(2) .
next
  case (drop_document docRef)
  from dropDocument_jobs_inv[OF assms(2) drop_document(2)] show ?thesis .
next
  case (drop_workspace wsRef)
  from dropWorkspace_jobs_inv[OF assms(2) drop_workspace(2)] show ?thesis .
next
  case (did_close uri)
  from onDidCloseTextDocument_jobs_inv[OF assms(2) did_close(2)] show ?thesis .
next
  case (store_write ds ws ts)
  with assms(2) show ?thesis by (simp add: jobs_inv_def)
qed

text \<open>The tasks that the server creates have no dependencies. Submitting such a task
  returns a promise: nothing is raised on the way.\<close>

lemma submitTask_without_dependencies_returns:
  assumes "jobs_inv s" "Task_dependencies s t = []"
  shows "\<exists>h s'. submitTask (Suc n) s (ByTask t) = Some (Inr (h, s'))"
proof (cases "Task_job s t")
  case (Some job)
  then show ?thesis by simp
next
  case None
  have "jobs_by_id s (jobIdCounter s + 1) = None"
    using assms(1) by (fastforce simp: jobs_inv_def jobs_by_id_def find_None_iff2)
  moreover have "jobs_by_taskId s (t_id t) = None" using None by (simp add: Task_job_def)
  ultimately have "\<exists>h s'. createJob s t = Inr (h, s')"
    by (simp add: createJob_def store_jobs_insert_def jobs_by_id_def jobs_by_taskId_def Let_def)
  then show ?thesis using None assms(2) by (cases n) auto
qed

lemma server_run_jobs_inv: "server_run acts s s' \<Longrightarrow> jobs_inv s \<Longrightarrow> jobs_inv s'"
  by (induction rule: server_run.induct) (auto intro: server_step_jobs_inv)

lemma fresh_jobs_inv: "jobs_inv (fresh ds ws ts)"
  by (simp add: jobs_inv_def fresh_def)

lemmas program_example_defs = example_defs server_both_def server_one_done_def server_closed_def

lemma submit_both:
  "submitTask 2 server0 (ByTask taskB) = Some (Inr (2, server_both))"
  unfolding program_example_defs by code_simp

lemma taskB_stored: "tasks_by_id server0 (t_id taskB) = Some taskB"
  unfolding program_example_defs by code_simp

lemma resume_one:
  "processJob_resume server_both \<lparr>j_id = 1, j_taskId = 1\<rparr> [] 7 = server_one_done"
  unfolding program_example_defs by code_simp

lemma close_b:
  "onDidCloseTextDocument server_one_done ''file:///w/b.rst'' = Inr server_closed"
  unfolding program_example_defs by code_simp

lemma example_server_run:
  "server_run [SubmitTask taskB, ResumeJob 1 [] 7, DidCloseTextDocument ''file:///w/b.rst'']
     server0 server_closed"
proof -
  have 0: "server_run [] server0 server0" by (rule server_run.at_start)
  have 1: "server_step (SubmitTask taskB) server0 server_both"
    using taskB_stored submit_both by (rule server_step.submit_task)
  have "\<lparr>j_id = 1, j_taskId = 1\<rparr> \<in> set (running server_both)"
    by (simp add: server_both_def)
  from server_step.resume_job[OF this, of "[]" 7]
  have 2: "server_step (ResumeJob 1 [] 7) server_both server_one_done"
    unfolding resume_one by simp
  have 3: "server_step (DidCloseTextDocument ''file:///w/b.rst'') server_one_done server_closed"
    using close_b by (rule server_step.did_close)
  from server_run.and_then[OF server_run.and_then[OF server_run.and_then[OF 0 1] 2] 3]
  show ?thesis by simp
qed

text \<open>Claim C7. In every state that the server reaches from a store without jobs (by
  submitting stored tasks, resuming suspended runs, dropping documents and workspaces,
  closing documents, and writing documents, workspaces and tasks), no two stored jobs belong
  to the same task; the job of a fulfilled promise is no longer in the store (it is removed
  on completion); the job of a cancelled id is no longer in the store (\<open>dropDocument\<close>, the
  only caller of \<open>cancelJob\<close>, removes it), so every stored job is non-cancelled; and
  \<open>processJob\<close> never finds the id it pops cancelled, so its branch that leaves the job in the
  store is never taken.\<close>

theorem stored_jobs_unique_and_removed:
  "server_run acts (fresh ds ws ts) s \<Longrightarrow>
     distinct (map j_taskId (jobs s))
     \<and> (\<forall>i \<in> set (fulfilled s). jobs_by_id s i = None)
     \<and> (\<forall>i \<in> cancelled s. jobs_by_id s i = None)
     \<and> (\<forall>j \<in> set (jobs s). j_id j \<notin> cancelled s)
     \<and> (\<forall>i. Dropped i \<notin> set (events s))"
proof -
  assume "server_run acts (fresh ds ws ts) s"
  then have "jobs_inv s" by (rule server_run_jobs_inv) (rule fresh_jobs_inv)
  then show ?thesis
    unfolding jobs_inv_def jobs_by_id_def find_None_iff2 by blast
qed

theorem stored_jobs_unique_and_removed_witness:
  "server_run [SubmitTask taskB, ResumeJob 1 [] 7, DidCloseTextDocument ''file:///w/b.rst'']
     server0 server_closed
   \<and> fulfilled server_closed = [1] \<and> cancelled server_closed = {2}
   \<and> jobs_by_id server_closed 1 = None \<and> jobs_by_id server_closed 2 = None
   \<and> jobs server_closed = []
   \<and> events server_closed = [ExecuteTask 1 1, ExecuteTask 2 2, Completed 1 1 7]"
proof -
  have r: "server_run [SubmitTask taskB, ResumeJob 1 [] 7,
             DidCloseTextDocument ''file:///w/b.rst''] (fresh [docA, docB] [wsW] [taskA, taskB])
             server_closed"
    using example_server_run by (simp add: server0_def)
  have f: "fulfilled server_closed = [1]" "cancelled server_closed = {2}"
    by (simp_all add: server_closed_def server_one_done_def)
  have e: "jobs server_closed = []"
    "events server_closed = [ExecuteTask 1 1, ExecuteTask 2 2, Completed 1 1 7]"
    by (simp_all add: server_closed_def server_one_done_def server_both_def)
  from stored_jobs_unique_and_removed[OF r] f e example_server_run show ?thesis
    by simp
qed

section \<open>Cache invalidation\<close>

lemma Document_update_clears_cache:
  "Document_update d v changes = Inr d' \<Longrightarrow> d_cache d' = []"
  by (auto simp: Document_update_def Document_clearCache_def split: sum.splits)

lemma find_map_replace_doc:
  assumes "d_id doc' = i"
  shows "find (\<lambda>d. d_id d = i) (map (\<lambda>d. if d_id d = i then doc' else d) ds) =
         (if find (\<lambda>d. d_id d = i) ds = None then None else Some doc')"
  using assms by (induction ds) auto

lemma Document_update_id:
  "Document_update d v changes = Inr d' \<Longrightarrow> d_id d' = d_id d \<and> d_workspaceId d' = d_workspaceId d"
  by (auto simp: Document_update_def Document_clearCache_def split: sum.splits)

lemma onDidChangeTextDocument_clears_caches:
  assumes ch: "onDidChangeTextDocument s uri v contentChanges = Inr s'"
    and doc: "documents_by_uri s uri = Some doc"
  shows "map_option d_cache (documents_by_id s' (d_id doc)) = Some []"
    and "\<forall>w \<in> set (workspaces s'). w_id w = d_workspaceId doc \<longrightarrow> w_cache w = []"
proof -
  from ch doc obtain ver doc' ws where v: "v = Some ver"
    and u: "Document_update doc ver contentChanges = Inr doc'"
    and w: "Document_workspace
              (s\<lparr>documents := map (\<lambda>d. if d_id d = d_id doc then doc' else d) (documents s)\<rparr>)
              doc' = Inr ws"
    and s': "s' = s\<lparr>documents := map (\<lambda>d. if d_id d = d_id doc then doc' else d) (documents s),
                    workspaces := map (\<lambda>w. if w_id w = w_id ws then Workspace_clearCache w else w)
                                      (workspaces s)\<rparr>"
    by (auto simp: onDidChangeTextDocument_def Let_def split: option.splits sum.splits prod.splits)
  note i = Document_update_id[OF u]
  have c: "d_cache doc' = []" by (rule Document_update_clears_cache[OF u])
  have "find (\<lambda>d. d_id d = d_id doc) (documents s) \<noteq> None"
    using doc by (auto simp: documents_by_uri_def find_None_iff2 dest: find_Some_prop)
  then have "documents_by_id s' (d_id doc) = Some doc'"
    unfolding s' documents_by_id_def using i by (simp add: find_map_replace_doc)
  then show "map_option d_cache (documents_by_id s' (d_id doc)) = Some []" using c by simp
  have "w_id ws = d_workspaceId doc"
    using w i by (auto simp: Document_workspace_def workspaces_by_id_def split: option.splits
        dest: find_Some_prop)
  then show "\<forall>w \<in> set (workspaces s'). w_id w = d_workspaceId doc \<longrightarrow> w_cache w = []"
    unfolding s' by (auto simp: Workspace_clearCache_def)
qed

lemma onRename_target_keeps_workspaces:
  "onRename_target s iuri contentChanges = Inr s' \<Longrightarrow> workspaces s' = workspaces s"
  by (auto simp: onRename_target_def split: option.splits sum.splits if_splits)

lemmas cache_example_defs = server_keys_def rename_b_to_c_def whole_text_query_def

text \<open>Claim C4, evaluated on the code. The workspace table \<open>referencesByKey\<close> is read, then a
  rename edits \<open>b.rst\<close>, a document in state \<open>indexing\<close>, through \<open>Document.update\<close>: the text
  of \<open>b.rst\<close> changes and its own cache is cleared, but the cache of the workspace is left as
  it was, and the next read of the table still lists the old key \<open>/b.png\<close>. The same edit
  through \<open>onDidChangeTextDocument\<close> clears the cache of the workspace, and the next read
  lists the new key \<open>/c.png\<close>.\<close>

theorem rename_leaves_workspace_table_stale:
  "(case getReferences_workspace whole_text_query server_keys ''file:///w'' of
      Inr (r1, s1) \<Rightarrow>
        r1 = [(''/a.png'', Media), (''/b.png'', Media)]
        \<and> (case onRename_target s1 ''file:///w/b.rst'' rename_b_to_c of
             Inr s2 \<Rightarrow>
               map (\<lambda>d. content (tsDoc d)) (documents s2) = [''/a.png'', ''/c.png'']
               \<and> map_option d_cache (documents_by_uri s2 ''file:///w/b.rst'') = Some []
               \<and> workspaces s2 = workspaces s1
               \<and> (case getReferences_workspace whole_text_query s2 ''file:///w'' of
                    Inr (r2, s3) \<Rightarrow> r2 = [(''/a.png'', Media), (''/b.png'', Media)]
                  | Inl e \<Rightarrow> False)
           | Inl e \<Rightarrow> False)
        \<and> (case onDidChangeTextDocument s1 ''file:///w/b.rst'' (Some 1) rename_b_to_c of
             Inr s2 \<Rightarrow>
               map (\<lambda>d. content (tsDoc d)) (documents s2) = [''/a.png'', ''/c.png'']
               \<and> map w_cache (workspaces s2) = [[]]
               \<and> (case getReferences_workspace whole_text_query s2 ''file:///w'' of
                    Inr (r2, s3) \<Rightarrow> r2 = [(''/a.png'', Media), (''/c.png'', Media)]
                  | Inl e \<Rightarrow> False)
           | Inl e \<Rightarrow> False)
    | Inl e \<Rightarrow> False)"
  unfolding cache_example_defs example_defs by code_simp

end
